theory Spec2Isabelle
  imports Complex_Main "HOL-Library.Multiset" "HOL-Library.Sublist"
begin

section \<open>The wordsearch generator of \<^verbatim>\<open>src/assets/app.js\<close>\<close>

text \<open>
  The development embeds \<^verbatim>\<open>generateWordsearch\<close> (lines 23--161) and its helpers
  \<^verbatim>\<open>randInt\<close>, \<^verbatim>\<open>choice\<close>, \<^verbatim>\<open>hasAdjacentOccupied\<close>, \<^verbatim>\<open>canPlace\<close> and
  \<^verbatim>\<open>doPlace\<close>.

  \<^item> Coordinates are \<open>int\<close> (the feasibility check sees negative ones), the grid
    dimension is a \<open>nat\<close>.
  \<^item> A matrix is a list of rows, read as \<^verbatim>\<open>m[y][x]\<close>. Every read and write goes
    through \<open>cell_read\<close> and \<open>cell_write\<close>, which answer \<open>None\<close> as soon as an index
    is outside the array: an out-of-bounds access (whether JavaScript would throw a
    \<^verbatim>\<open>TypeError\<close>, read \<^verbatim>\<open>undefined\<close> or grow the array) is a failure of the model.
  \<^item> \<^verbatim>\<open>Math.random()\<close> is a sequence \<open>rnd :: nat \<Rightarrow> rat\<close> of draws; the state counts
    the draws made so far. A draw is a number of \<open>[0, 1)\<close>; theorems assume it.
    \<^verbatim>\<open>Math.floor(Math.random() * n)\<close> is computed exactly.
  \<^item> Loops are recursions over the list of indices they run through.
  \<^item> The variables \<^verbatim>\<open>size\<close> and \<^verbatim>\<open>sorted\<close> are written \<open>sz\<close> and \<open>srt\<close>: their names
    are constants of HOL. The parameter \<^verbatim>\<open>wordIndex\<close> of \<^verbatim>\<open>canPlace\<close> is kept though the
    source never reads it.
\<close>

subsection \<open>Utilities\<close>

definition randInt :: "rat \<Rightarrow> int \<Rightarrow> int" where
  "randInt r n = \<lfloor>r * of_int n\<rfloor>"

text \<open>
  \<^verbatim>\<open>arr[randInt(arr.length)]\<close>: an index outside the array reads \<^verbatim>\<open>undefined\<close>,
  whose field access (line 128) throws; the model fails there.
\<close>

definition choice :: "rat \<Rightarrow> 'a list \<Rightarrow> 'a option" where
  "choice r arr =
     (let i = randInt r (int (length arr))
      in if 0 \<le> i \<and> i < int (length arr) then Some (arr ! nat i) else None)"

subsection \<open>Matrices\<close>

type_synonym 'a matrix = "'a list list"

definition cell_read :: "'a matrix \<Rightarrow> int \<Rightarrow> int \<Rightarrow> 'a option" where
  "cell_read m x y =
     (if 0 \<le> y \<and> y < int (length m) \<and> 0 \<le> x \<and> x < int (length (m ! nat y))
      then Some (m ! nat y ! nat x) else None)"

definition cell_write :: "'a matrix \<Rightarrow> int \<Rightarrow> int \<Rightarrow> 'a \<Rightarrow> 'a matrix option" where
  "cell_write m x y v =
     (if 0 \<le> y \<and> y < int (length m) \<and> 0 \<le> x \<and> x < int (length (m ! nat y))
      then Some (m[nat y := (m ! nat y)[nat x := v]]) else None)"

text \<open>\<^verbatim>\<open>Array.from({ length: size }, () => Array.from({ length: size }, () => v))\<close>\<close>

definition new_matrix :: "nat \<Rightarrow> 'a \<Rightarrow> 'a matrix" where
  "new_matrix sz v = replicate sz (replicate sz v)"

subsection \<open>State of one generation\<close>

text \<open>
  The returned object \<^verbatim>\<open>{ grid, mark, placements, failed }\<close>; a grid cell is
  \<open>None\<close> for \<^verbatim>\<open>null\<close> and \<open>Some c\<close> for a letter. The closure's variables are the
  same four with \<^verbatim>\<open>owner\<close> and the number of draws made.
\<close>

record generation_result =
  grid :: "char option matrix"
  mark :: "bool matrix"
  placements :: "(string \<times> (int \<times> int) list) list"
  failed :: "string list"

record gen_state = generation_result +
  owner :: "nat option matrix"
  calls :: nat

definition dirs :: "bool \<Rightarrow> (int \<times> int) list" where
  "dirs allowDiagonals =
     [(1, 0), (-1, 0), (0, 1), (0, -1)] @
     (if allowDiagonals then [(1, 1), (-1, -1), (1, -1), (-1, 1)] else [])"

subsection \<open>Sorting a copy of the caller's array\<close>

text \<open>
  \<^verbatim>\<open>Array.prototype.sort\<close> with a comparator is stable (ECMAScript 2019); it is
  modelled by a stable insertion sort: \<open>a\<close> goes before \<open>b\<close> when the comparator is
  negative, and stays before an equal \<open>b\<close> that followed it.
\<close>

fun insert_cmp :: "('a \<Rightarrow> 'a \<Rightarrow> int) \<Rightarrow> 'a \<Rightarrow> 'a list \<Rightarrow> 'a list" where
  "insert_cmp cmp a [] = [a]"
| "insert_cmp cmp a (b # bs) =
     (if cmp a b \<le> 0 then a # b # bs else b # insert_cmp cmp a bs)"

definition js_sort :: "('a \<Rightarrow> 'a \<Rightarrow> int) \<Rightarrow> 'a list \<Rightarrow> 'a list" where
  "js_sort cmp xs = foldr (insert_cmp cmp) xs []"

definition by_length_desc :: "string \<Rightarrow> string \<Rightarrow> int" where
  "by_length_desc a b = int (length b) - int (length a)"

text \<open>
  Arrays are objects: the heap is a list of arrays and a reference is an index in it.
  \<^verbatim>\<open>[...words]\<close> allocates a new array holding the elements of \<^verbatim>\<open>words\<close>;
  \<^verbatim>\<open>.sort\<close> sorts the array it is called on in place.
\<close>

type_synonym heap = "string list list"

definition spread_copy :: "heap \<Rightarrow> nat \<Rightarrow> (heap \<times> nat) option" where
  "spread_copy h r = (if r < length h then Some (h @ [h ! r], length h) else None)"

definition sort_in_place :: "heap \<Rightarrow> nat \<Rightarrow> (string \<Rightarrow> string \<Rightarrow> int) \<Rightarrow> heap option" where
  "sort_in_place h r cmp = (if r < length h then Some (h[r := js_sort cmp (h ! r)]) else None)"

subsection \<open>The spacing rule\<close>

text \<open>
  Lines 63--72: the two loops run through the nine cells around \<open>(xx, yy)\<close>, rows first;
  the cell itself and the cells outside the grid are skipped, the first occupied cell
  answers true.
\<close>

fun scanNeighbours ::
  "int \<Rightarrow> char option matrix \<Rightarrow> int \<Rightarrow> int \<Rightarrow> (int \<times> int) list \<Rightarrow> bool option" where
  "scanNeighbours sz g xx yy [] = Some False"
| "scanNeighbours sz g xx yy ((nx, ny) # rest) =
     (if nx = xx \<and> ny = yy then scanNeighbours sz g xx yy rest
      else if nx < 0 \<or> nx \<ge> sz \<or> ny < 0 \<or> ny \<ge> sz then scanNeighbours sz g xx yy rest
      else case cell_read g nx ny of
             None \<Rightarrow> None
           | Some c \<Rightarrow> if c \<noteq> None then Some True else scanNeighbours sz g xx yy rest)"

definition hasAdjacentOccupied :: "int \<Rightarrow> char option matrix \<Rightarrow> int \<Rightarrow> int \<Rightarrow> bool option" where
  "hasAdjacentOccupied sz g xx yy =
     scanNeighbours sz g xx yy
       (concat (map (\<lambda>ny. map (\<lambda>nx. (nx, ny)) [xx - 1, xx, xx + 1]) [yy - 1, yy, yy + 1]))"

subsection \<open>Feasibility check and commit\<close>

text \<open>
  Lines 74--96. A cell outside the grid answers false before the grid is read; an occupied
  cell must hold the letter and is then exempt from the spacing rule; an empty cell must
  have no occupied neighbour.
\<close>

fun canPlaceLoop ::
  "int \<Rightarrow> char option matrix \<Rightarrow> string \<Rightarrow> int \<Rightarrow> int \<Rightarrow> int \<Rightarrow> int \<Rightarrow> nat list \<Rightarrow> bool option" where
  "canPlaceLoop sz g word x y dx dy [] = Some True"
| "canPlaceLoop sz g word x y dx dy (i # rest) =
     (let xx = x + dx * int i; yy = y + dy * int i
      in if xx < 0 \<or> xx \<ge> sz \<or> yy < 0 \<or> yy \<ge> sz then Some False
         else case cell_read g xx yy of
                None \<Rightarrow> None
              | Some existing \<Rightarrow>
                  if existing \<noteq> None
                  then (if existing \<noteq> Some (word ! i) then Some False
                        else canPlaceLoop sz g word x y dx dy rest)
                  else (case hasAdjacentOccupied sz g xx yy of
                          None \<Rightarrow> None
                        | Some True \<Rightarrow> Some False
                        | Some False \<Rightarrow> canPlaceLoop sz g word x y dx dy rest))"

definition canPlace ::
  "int \<Rightarrow> char option matrix \<Rightarrow> string \<Rightarrow> int \<Rightarrow> int \<Rightarrow> int \<Rightarrow> int \<Rightarrow> nat \<Rightarrow> bool option" where
  "canPlace sz g word x y dx dy wordIndex =
     canPlaceLoop sz g word x y dx dy [0..<length word]"

text \<open>
  Lines 98--114: the letter and the mark are written at each cell, the owner only where
  none is set, and the entry is appended to \<open>placements\<close> after the loop.
\<close>

fun doPlaceLoop ::
  "gen_state \<Rightarrow> string \<Rightarrow> int \<Rightarrow> int \<Rightarrow> int \<Rightarrow> int \<Rightarrow> nat \<Rightarrow> (int \<times> int) list \<Rightarrow> nat list
   \<Rightarrow> (gen_state \<times> (int \<times> int) list) option" where
  "doPlaceLoop s word x y dx dy wordIndex cells [] = Some (s, cells)"
| "doPlaceLoop s word x y dx dy wordIndex cells (i # rest) =
     (let xx = x + dx * int i; yy = y + dy * int i
      in case cell_write (grid s) xx yy (Some (word ! i)) of
           None \<Rightarrow> None
         | Some g' \<Rightarrow>
        (case cell_write (mark s) xx yy True of
           None \<Rightarrow> None
         | Some m' \<Rightarrow>
        (case cell_read (owner s) xx yy of
           None \<Rightarrow> None
         | Some ow \<Rightarrow>
        (case (if ow = None then cell_write (owner s) xx yy (Some wordIndex)
               else Some (owner s)) of
           None \<Rightarrow> None
         | Some o' \<Rightarrow>
             doPlaceLoop (s\<lparr>grid := g', mark := m', owner := o'\<rparr>) word x y dx dy wordIndex
               (cells @ [(xx, yy)]) rest))))"

definition doPlace ::
  "gen_state \<Rightarrow> string \<Rightarrow> int \<Rightarrow> int \<Rightarrow> int \<Rightarrow> int \<Rightarrow> nat \<Rightarrow> gen_state option" where
  "doPlace s word x y dx dy wordIndex =
     (case doPlaceLoop s word x y dx dy wordIndex [] [0..<length word] of
        None \<Rightarrow> None
      | Some (s', cells) \<Rightarrow> Some (s'\<lparr>placements := placements s' @ [(word, cells)]\<rparr>))"

subsection \<open>Random trials for one word, and the loop over the words\<close>

definition attempts :: nat where
  "attempts = 2000"

text \<open>
  \<open>tryPlace rnd sz ds word wi n s\<close> runs the last \<open>n\<close> rounds of the loop of lines
  126--145 and answers the state with the flag \<^verbatim>\<open>placed\<close>. A round makes three draws:
  the direction, then \<open>x\<close>, then \<open>y\<close>. \<open>placeWords\<close> is the loop of lines 119--148 over the
  indices of the sorted list.
\<close>

fun tryPlace ::
  "(nat \<Rightarrow> rat) \<Rightarrow> int \<Rightarrow> (int \<times> int) list \<Rightarrow> string \<Rightarrow> nat \<Rightarrow> nat \<Rightarrow> gen_state
   \<Rightarrow> (gen_state \<times> bool) option" where
  "tryPlace rnd sz ds word wi 0 s = Some (s, False)"
| "tryPlace rnd sz ds word wi (Suc n) s =
     (case choice (rnd (calls s)) ds of
        None \<Rightarrow> None
      | Some (dx, dy) \<Rightarrow>
          (let len = int (length word);
               xMin = (if dx = -1 then len - 1 else 0);
               xMax = (if dx = 1 then sz - len else sz - 1);
               yMin = (if dy = -1 then len - 1 else 0);
               yMax = (if dy = 1 then sz - len else sz - 1);
               x = randInt (rnd (calls s + 1)) (xMax - xMin + 1) + xMin;
               y = randInt (rnd (calls s + 2)) (yMax - yMin + 1) + yMin;
               s1 = s\<lparr>calls := calls s + 3\<rparr>
           in case canPlace sz (grid s1) word x y dx dy wi of
                None \<Rightarrow> None
              | Some True \<Rightarrow>
                  (case doPlace s1 word x y dx dy wi of
                     None \<Rightarrow> None
                   | Some s2 \<Rightarrow> Some (s2, True))
              | Some False \<Rightarrow> tryPlace rnd sz ds word wi n s1))"

fun placeWords ::
  "(nat \<Rightarrow> rat) \<Rightarrow> int \<Rightarrow> (int \<times> int) list \<Rightarrow> string list \<Rightarrow> gen_state \<Rightarrow> nat list
   \<Rightarrow> gen_state option" where
  "placeWords rnd sz ds srt s [] = Some s"
| "placeWords rnd sz ds srt s (wi # rest) =
     (let word = srt ! wi
      in case tryPlace rnd sz ds word wi attempts s of
           None \<Rightarrow> None
         | Some (s', placed) \<Rightarrow>
             placeWords rnd sz ds srt
               (if \<not> placed then s'\<lparr>failed := failed s' @ [word]\<rparr> else s') rest)"

subsection \<open>Filling the blanks\<close>

definition alphabet :: string where
  "alphabet = ''ABCDEFGHIJKLMNOPQRSTUVWXYZ''"

text \<open>
  Lines 152--158, over the cells in the order of the two loops. A draw is made for an
  empty cell only. \<^verbatim>\<open>alphabet[randInt(alphabet.length)]\<close> is the body of \<^verbatim>\<open>choice\<close>; an
  index outside \<open>alphabet\<close> would store \<^verbatim>\<open>undefined\<close>, which is no value of a cell here:
  the model fails there.
\<close>

fun fillBlanks ::
  "(nat \<Rightarrow> rat) \<Rightarrow> char option matrix \<Rightarrow> nat \<Rightarrow> (int \<times> int) list
   \<Rightarrow> (char option matrix \<times> nat) option" where
  "fillBlanks rnd g k [] = Some (g, k)"
| "fillBlanks rnd g k ((x, y) # rest) =
     (case cell_read g x y of
        None \<Rightarrow> None
      | Some c \<Rightarrow>
          if c = None
          then (case choice (rnd k) alphabet of
                  None \<Rightarrow> None
                | Some letter \<Rightarrow>
                    (case cell_write g x y (Some letter) of
                       None \<Rightarrow> None
                     | Some g' \<Rightarrow> fillBlanks rnd g' (k + 1) rest))
          else fillBlanks rnd g k rest)"

definition scan_order :: "nat \<Rightarrow> (int \<times> int) list" where
  "scan_order sz =
     concat (map (\<lambda>y. map (\<lambda>x. (int x, int y)) [0..<sz]) [0..<sz])"

subsection \<open>generateWordsearch\<close>

definition init_state :: "nat \<Rightarrow> gen_state" where
  "init_state sz =
     \<lparr>grid = new_matrix sz None, mark = new_matrix sz False, placements = [],
      failed = [], owner = new_matrix sz None, calls = 0\<rparr>"

text \<open>Lines 25--160 once \<^verbatim>\<open>sorted\<close> is known.\<close>

definition placeSorted ::
  "(nat \<Rightarrow> rat) \<Rightarrow> string list \<Rightarrow> nat \<Rightarrow> bool \<Rightarrow> generation_result option" where
  "placeSorted rnd srt sz allowDiagonals =
     (case placeWords rnd (int sz) (dirs allowDiagonals) srt (init_state sz)
             [0..<length srt] of
        None \<Rightarrow> None
      | Some s \<Rightarrow>
          (case fillBlanks rnd (grid s) (calls s) (scan_order sz) of
             None \<Rightarrow> None
           | Some (g, k) \<Rightarrow>
               Some \<lparr>grid = g, mark = mark s, placements = placements s, failed = failed s\<rparr>))"

text \<open>
  The call on a heap: \<open>words\<close> is the reference the caller passes. The answer is the
  heap after the call and the returned object.
\<close>

definition generateWordsearch_call ::
  "(nat \<Rightarrow> rat) \<Rightarrow> heap \<Rightarrow> nat \<Rightarrow> nat \<Rightarrow> bool \<Rightarrow> (heap \<times> generation_result) option" where
  "generateWordsearch_call rnd h words sz allowDiagonals =
     (case spread_copy h words of
        None \<Rightarrow> None
      | Some (h1, srt) \<Rightarrow>
          (case sort_in_place h1 srt by_length_desc of
             None \<Rightarrow> None
           | Some h2 \<Rightarrow>
               (case placeSorted rnd (h2 ! srt) sz allowDiagonals of
                  None \<Rightarrow> None
                | Some res \<Rightarrow> Some (h2, res))))"

text \<open>The same call on a word list given by value: the heap holds that array only.\<close>

definition generateWordsearch ::
  "(nat \<Rightarrow> rat) \<Rightarrow> string list \<Rightarrow> nat \<Rightarrow> bool \<Rightarrow> generation_result option" where
  "generateWordsearch rnd words sz allowDiagonals =
     map_option snd (generateWordsearch_call rnd [words] 0 sz allowDiagonals)"

section \<open>Predicates of the properties and concrete inputs\<close>

text \<open>A matrix of dimension \<open>n\<close>: \<open>n\<close> rows of \<open>n\<close> cells.\<close>

definition wf_matrix :: "nat \<Rightarrow> 'a matrix \<Rightarrow> bool" where
  "wf_matrix n m \<longleftrightarrow> length m = n \<and> (\<forall>row \<in> set m. length row = n)"

text \<open>The bounds test of lines 67 and 79, on a cell \<open>c = (x, y)\<close>.\<close>

definition inb :: "int \<Rightarrow> int \<times> int \<Rightarrow> bool" where
  "inb sz c \<longleftrightarrow> 0 \<le> fst c \<and> fst c < sz \<and> 0 \<le> snd c \<and> snd c < sz"

text \<open>Two distinct cells that touch orthogonally or diagonally.\<close>

definition adjacent8 :: "int \<times> int \<Rightarrow> int \<times> int \<Rightarrow> bool" where
  "adjacent8 c d \<longleftrightarrow> c \<noteq> d \<and> \<bar>fst c - fst d\<bar> \<le> 1 \<and> \<bar>snd c - snd d\<bar> \<le> 1"

text \<open>\<open>cell_read\<close> on a cell.\<close>

definition rd :: "'a matrix \<Rightarrow> int \<times> int \<Rightarrow> 'a option" where
  "rd m c = cell_read m (fst c) (snd c)"

text \<open>The cell of the \<open>i\<close>-th letter of a word laid from \<open>(x, y)\<close> along \<open>(dx, dy)\<close>.\<close>

definition cellAt :: "int \<Rightarrow> int \<Rightarrow> int \<Rightarrow> int \<Rightarrow> nat \<Rightarrow> int \<times> int" where
  "cellAt x y dx dy i = (x + dx * int i, y + dy * int i)"

text \<open>The coordinate list \<^verbatim>\<open>cells\<close> that \<^verbatim>\<open>doPlace\<close> builds for a word of \<open>n\<close> letters.\<close>

definition line_cells :: "int \<Rightarrow> int \<Rightarrow> int \<Rightarrow> int \<Rightarrow> nat \<Rightarrow> (int \<times> int) list" where
  "line_cells x y dx dy n = map (cellAt x y dx dy) [0..<n]"

text \<open>A cell of the grid that holds a letter.\<close>

definition occupied :: "char option matrix \<Rightarrow> int \<times> int \<Rightarrow> bool" where
  "occupied g c \<longleftrightarrow> (\<exists>ch. rd g c = Some (Some ch))"

text \<open>
  What one round of the loop of \<^verbatim>\<open>canPlace\<close> accepts: the cell is inside the grid and
  either holds the letter of the word, or is empty with no occupied neighbour.
\<close>

definition cell_ok :: "nat \<Rightarrow> char option matrix \<Rightarrow> string \<Rightarrow> int \<Rightarrow> int \<Rightarrow> int \<Rightarrow> int \<Rightarrow> nat \<Rightarrow> bool" where
  "cell_ok n g word x y dx dy i \<longleftrightarrow>
     inb (int n) (cellAt x y dx dy i) \<and>
     (rd g (cellAt x y dx dy i) = Some (Some (word ! i)) \<or>
      (rd g (cellAt x y dx dy i) = Some None \<and>
       (\<forall>d. adjacent8 (cellAt x y dx dy i) d \<longrightarrow> \<not> occupied g d)))"

text \<open>The three matrices of the state have the dimension of the grid.\<close>

definition wf_state :: "nat \<Rightarrow> gen_state \<Rightarrow> bool" where
  "wf_state n s \<longleftrightarrow> wf_matrix n (grid s) \<and> wf_matrix n (mark s) \<and> wf_matrix n (owner s)"

text \<open>The cells that belong to the coordinate list of some entry of \<open>placements\<close>.\<close>

definition covered :: "(string \<times> (int \<times> int) list) list \<Rightarrow> (int \<times> int) set" where
  "covered ps = (\<Union>p \<in> set ps. set (snd p))"

text \<open>
  An entry \<open>p = (word, cells)\<close> spells its word in the grid \<open>g\<close>: \<open>cells\<close> is a line along
  a direction of the active set with one cell for each letter, and \<open>g\<close> holds the letters
  there.
\<close>

definition spells :: "char option matrix \<Rightarrow> bool \<Rightarrow> string \<times> (int \<times> int) list \<Rightarrow> bool" where
  "spells g ad p \<longleftrightarrow>
     (\<exists>x y dx dy. (dx, dy) \<in> set (dirs ad) \<and> snd p = line_cells x y dx dy (length (fst p))) \<and>
     (\<forall>i < length (fst p). rd g (snd p ! i) = Some (Some (fst p ! i)))"

text \<open>
  The spacing rule that the code keeps: two 8-adjacent cells that placements cover lie
  together in the coordinate list of one entry. Read on pairs of entries: a cell of one
  entry touches a cell of another only where a single entry holds both cells.
\<close>

definition spacing_joint :: "(string \<times> (int \<times> int) list) list \<Rightarrow> bool" where
  "spacing_joint ps \<longleftrightarrow>
     (\<forall>c d. c \<in> covered ps \<and> d \<in> covered ps \<and> adjacent8 c d \<longrightarrow>
        (\<exists>p \<in> set ps. c \<in> set (snd p) \<and> d \<in> set (snd p)))"

text \<open>The invariant of the loop over the words (lines 119--148).\<close>

definition gen_inv :: "nat \<Rightarrow> bool \<Rightarrow> gen_state \<Rightarrow> bool" where
  "gen_inv n ad s \<longleftrightarrow>
     wf_state n s \<and>
     (\<forall>p \<in> set (placements s). spells (grid s) ad p) \<and>
     (\<forall>c. occupied (grid s) c \<longleftrightarrow> c \<in> covered (placements s)) \<and>
     (\<forall>c. rd (mark s) c = Some True \<longleftrightarrow> c \<in> covered (placements s)) \<and>
     spacing_joint (placements s)"

text \<open>
  The words \<open>ws\<close> in their order, split by the flag \<^verbatim>\<open>placed\<close> of each: the placed
  ones and the failed ones.
\<close>

definition outcome_split :: "string list \<Rightarrow> bool list \<Rightarrow> string list \<times> string list" where
  "outcome_split ws flags =
     (map fst (filter snd (zip ws flags)), map fst (filter (\<lambda>z. \<not> snd z) (zip ws flags)))"

text \<open>\<^verbatim>\<open>Math.random()\<close> returns a number of \<open>[0, 1)\<close>.\<close>

definition draws :: "(nat \<Rightarrow> rat) \<Rightarrow> bool" where
  "draws rnd \<longleftrightarrow> (\<forall>k. 0 \<le> rnd k \<and> rnd k < 1)"

text \<open>
  The input contract: a non-empty sequence of distinct words, each of length at least 2
  and at most \<open>sz\<close>, made of the letters \<^verbatim>\<open>A\<close>--\<^verbatim>\<open>Z\<close>.
\<close>

definition precondition :: "string list \<Rightarrow> nat \<Rightarrow> bool" where
  "precondition words sz \<longleftrightarrow>
     words \<noteq> [] \<and> distinct words \<and>
     (\<forall>w \<in> set words. 2 \<le> length w \<and> length w \<le> sz \<and> set w \<subseteq> set alphabet)"

text \<open>The random sequence whose every draw is \<open>0\<close>.\<close>

definition rnd_zero :: "nat \<Rightarrow> rat" where
  "rnd_zero k = 0"

text \<open>Lengths never increase along the list.\<close>

definition longest_first :: "string list \<Rightarrow> bool" where
  "longest_first ws = sorted_wrt (\<lambda>a b. length b \<le> length a) ws"

text \<open>The words of each length come in \<open>ws\<close> in the order they have in \<open>words\<close>.\<close>

definition same_length_order :: "string list \<Rightarrow> string list \<Rightarrow> bool" where
  "same_length_order ws words \<longleftrightarrow>
     (\<forall>k. subseq (filter (\<lambda>w. length w = k) ws) (filter (\<lambda>w. length w = k) words))"



text \<open>A random sequence whose eighth draw is \<open>3/4\<close> and every other draw \<open>0\<close>.\<close>

definition rnd_c2 :: "nat \<Rightarrow> rat" where
  "rnd_c2 k = (if k = 7 then 3 / 4 else 0)"

text \<open>The number of cells of the matrix, in scan order, whose mask entry is true.\<close>

definition mask_count :: "bool matrix \<Rightarrow> nat" where
  "mask_count m = length (filter (\<lambda>c. cell_read m (fst c) (snd c) = Some True) (scan_order (length m)))"

text \<open>The state once \<^verbatim>\<open>CAT\<close> lies on \<open>(0,0)\<dots>(2,0)\<close> of a 10 by 10 grid, after three draws.\<close>

definition cat_state :: gen_state where
  "cat_state =
     \<lparr>grid = (new_matrix 10 None)[0 := map Some ''CAT'' @ replicate 7 None],
      mark = (new_matrix 10 False)[0 := replicate 3 True @ replicate 7 False],
      placements = [(''CAT'', [(0, 0), (1, 0), (2, 0)])],
      failed = [],
      owner = (new_matrix 10 None)[0 := replicate 3 (Some 0) @ replicate 7 None],
      calls = 3\<rparr>"

text \<open>
  The \<open>a\<close>-th trial for a word, counted from \<open>0\<close> and run alone: one round of the loop of
  lines 126--145 from the state \<open>s\<close> in which the word's trials begin, at the three draws
  that trial makes. It succeeds when that round places the word.
\<close>

definition trial_succeeds ::
  "(nat \<Rightarrow> rat) \<Rightarrow> int \<Rightarrow> (int \<times> int) list \<Rightarrow> string \<Rightarrow> nat \<Rightarrow> gen_state \<Rightarrow> nat \<Rightarrow> bool" where
  "trial_succeeds rnd sz ds word wi s a \<longleftrightarrow>
     map_option snd (tryPlace rnd sz ds word wi (Suc 0) (s\<lparr>calls := calls s + 3 * a\<rparr>)) = Some True"

text \<open>That state once \<^verbatim>\<open>CA\<close> is laid over the first two letters of \<^verbatim>\<open>CAT\<close>.\<close>

definition ca_state :: gen_state where
  "ca_state = cat_state\<lparr>placements := placements cat_state @ [(''CA'', [(0, 0), (1, 0)])], calls := 6\<rparr>"

text \<open>The grid of \<open>cat_state\<close> with every blank filled by the letter \<^verbatim>\<open>A\<close>.\<close>

definition cat_filled :: "char option matrix" where
  "cat_filled = (new_matrix 10 (Some CHR ''A''))[0 := map Some ''CATAAAAAAA'']"

text \<open>
  The result for the words \<^verbatim>\<open>CAT\<close>, \<^verbatim>\<open>DOG\<close> on a 10 by 10 grid under \<open>rnd_c2\<close>: the
  second trial of \<^verbatim>\<open>DOG\<close> starts at \<open>(6, 0)\<close>.
\<close>

definition apart_result :: generation_result where
  "apart_result =
     \<lparr>grid = (new_matrix 10 (Some CHR ''A''))[0 := map Some ''CATAAADOGA''],
      mark = (new_matrix 10 False)[0 := [True, True, True, False, False, False, True, True, True, False]],
      placements = [(''CAT'', [(0, 0), (1, 0), (2, 0)]), (''DOG'', [(6, 0), (7, 0), (8, 0)])],
      failed = []\<rparr>"

text \<open>
  The result for the words \<^verbatim>\<open>CA\<close>, \<^verbatim>\<open>CATS\<close>, \<^verbatim>\<open>TS\<close> on a 4 by 4 grid under \<open>rnd_c2\<close>:
  \<^verbatim>\<open>CA\<close> and \<^verbatim>\<open>TS\<close> are laid over \<^verbatim>\<open>CATS\<close>.
\<close>

definition overlay_result :: generation_result where
  "overlay_result =
     \<lparr>grid = (new_matrix 4 (Some CHR ''A''))[0 := map Some ''CATS''],
      mark = (new_matrix 4 False)[0 := replicate 4 True],
      placements = [(''CATS'', [(0, 0), (1, 0), (2, 0), (3, 0)]), (''CA'', [(0, 0), (1, 0)]),
                    (''TS'', [(2, 0), (3, 0)])],
      failed = []\<rparr>"


section \<open>Lemmas about the model\<close>

subsection \<open>Cells, neighbours and the feasibility check\<close>

lemma rd_wf: "wf_matrix n m \<Longrightarrow> rd m c = (if inb (int n) c then Some (m ! nat (snd c) ! nat (fst c)) else None)"
  by (auto simp: rd_def cell_read_def wf_matrix_def inb_def)

lemma rd_inb: "wf_matrix n m \<Longrightarrow> rd m c \<noteq> None \<longleftrightarrow> inb (int n) c"
  by (simp add: rd_wf)

lemma cell_read_rd: "cell_read m x y = rd m (x, y)"
  by (simp add: rd_def)

lemma cell_write_wf: "cell_write m x y v = Some m' \<Longrightarrow> wf_matrix n m \<Longrightarrow> wf_matrix n m'"
  by (auto simp: cell_write_def wf_matrix_def split: if_splits dest!: set_update_subset_insert[THEN subsetD])

lemma cell_write_rd:
  "cell_write m x y v = Some m' \<Longrightarrow> rd m' c = (if c = (x, y) then Some v else rd m c)"
  by (cases c) (auto simp: cell_write_def rd_def cell_read_def nth_list_update split: if_splits)

lemma cell_write_defined: "rd m (x, y) \<noteq> None \<Longrightarrow> \<exists>m'. cell_write m x y v = Some m'"
  by (auto simp: cell_write_def rd_def cell_read_def split: if_splits)

lemma occupied_inb: "wf_matrix n g \<Longrightarrow> occupied g c \<Longrightarrow> inb (int n) c"
  by (auto simp: occupied_def rd_wf split: if_splits)

lemma scanNeighbours_wf:
  "wf_matrix n g \<Longrightarrow>
   scanNeighbours (int n) g xx yy ns = Some (\<exists>d \<in> set ns. d \<noteq> (xx, yy) \<and> occupied g d)"
proof (induction ns)
  case Nil
  then show ?case by simp
next
  case (Cons d ns)
  obtain nx ny where d: "d = (nx, ny)" by (cases d)
  show ?case
  proof (cases "inb (int n) d")
    case True
    then obtain v where v: "cell_read g nx ny = Some v"
      using Cons.prems d by (auto simp: cell_read_rd rd_wf)
    have occ: "occupied g d \<longleftrightarrow> v \<noteq> None"
      using v d by (auto simp: occupied_def cell_read_rd)
    show ?thesis using Cons True v occ d
      by (auto simp: inb_def)
  next
    case False
    then have "\<not> occupied g d" using occupied_inb[OF Cons.prems] by blast
    then show ?thesis using Cons False d
      by (auto simp: inb_def)
  qed
qed

lemma near_cases: "\<bar>xx - a\<bar> \<le> (1::int) \<longleftrightarrow> a \<in> {xx - 1, xx, xx + 1}"
  by (simp only: insert_iff empty_iff) arith

lemma mem_grid9:
  "d \<in> set (concat (map (\<lambda>ny. map (\<lambda>nx. (nx, ny)) [xx - 1, xx, xx + 1]) [yy - 1, yy, yy + 1])) \<longleftrightarrow>
   fst d \<in> {xx - 1, xx, xx + (1::int)} \<and> snd d \<in> {yy - 1, yy, yy + (1::int)}"
  by (cases d) (simp only: set_concat set_map list.set image_insert image_empty UN_insert UN_empty
        Un_iff insert_iff empty_iff prod.inject fst_conv snd_conv, blast)

lemma mem_neighbours:
  "d \<in> set (concat (map (\<lambda>ny. map (\<lambda>nx. (nx, ny)) [xx - 1, xx, xx + 1]) [yy - 1, yy, yy + 1])) \<longleftrightarrow>
   \<bar>xx - fst d\<bar> \<le> (1::int) \<and> \<bar>yy - snd d\<bar> \<le> (1::int)"
  by (simp only: mem_grid9 near_cases)

lemma hasAdjacentOccupied_wf:
  "wf_matrix n g \<Longrightarrow>
   hasAdjacentOccupied (int n) g xx yy = Some (\<exists>d. adjacent8 (xx, yy) d \<and> occupied g d)"
proof -
  assume wf: "wf_matrix n g"
  have "(\<exists>d \<in> set (concat (map (\<lambda>ny. map (\<lambda>nx. (nx, ny)) [xx - 1, xx, xx + 1]) [yy - 1, yy, yy + 1])).
           d \<noteq> (xx, yy) \<and> occupied g d) \<longleftrightarrow> (\<exists>d. adjacent8 (xx, yy) d \<and> occupied g d)"
    unfolding Bex_def mem_neighbours adjacent8_def by (metis fst_conv snd_conv)
  then show ?thesis
    unfolding hasAdjacentOccupied_def scanNeighbours_wf[OF wf] by simp
qed

lemma canPlaceLoop_wf:
  "wf_matrix n g \<Longrightarrow>
   canPlaceLoop (int n) g word x y dx dy is = Some (\<forall>i \<in> set is. cell_ok n g word x y dx dy i)"
proof (induction "is")
  case Nil
  then show ?case by simp
next
  case (Cons i rest)
  let ?c = "cellAt x y dx dy i"
  show ?case
  proof (cases "inb (int n) ?c")
    case False
    then show ?thesis by (auto simp: cell_ok_def inb_def cellAt_def Let_def)
  next
    case True
    then obtain v where v: "rd g ?c = Some v" using Cons.prems by (simp add: rd_wf)
    then have v': "cell_read g (x + dx * int i) (y + dy * int i) = Some v"
      by (simp add: rd_def cellAt_def)
    have nb: "\<not> (x + dx * int i < 0 \<or> int n \<le> x + dx * int i \<or> y + dy * int i < 0 \<or> int n \<le> y + dy * int i)"
      using True by (auto simp: inb_def cellAt_def)
    show ?thesis
    proof (cases v)
      case None
      have "hasAdjacentOccupied (int n) g (x + dx * int i) (y + dy * int i) =
              Some (\<exists>d. adjacent8 ?c d \<and> occupied g d)"
        using hasAdjacentOccupied_wf[OF Cons.prems] by (simp add: cellAt_def)
      then show ?thesis using Cons None v v' nb True
        by (auto simp: cell_ok_def Let_def split: bool.splits)
    next
      case (Some ch)
      then show ?thesis using Cons v v' nb True
        by (auto simp: cell_ok_def Let_def)
    qed
  qed
qed

lemma canPlace_wf:
  "wf_matrix n g \<Longrightarrow>
   canPlace (int n) g word x y dx dy wi = Some (\<forall>i < length word. cell_ok n g word x y dx dy i)"
  by (auto simp: canPlace_def canPlaceLoop_wf)

subsection \<open>Committing a placement and the trials of one word\<close>

lemma cellAt_inj: "(dx, dy) \<noteq> (0, 0) \<Longrightarrow> cellAt x y dx dy i = cellAt x y dx dy j \<Longrightarrow> i = j"
  by (auto simp: cellAt_def)

lemma doPlaceLoop_effect:
  assumes "wf_state n s"
    and "\<forall>i \<in> set is. inb (int n) (cellAt x y dx dy i)"
    and "distinct is"
    and "(dx, dy) \<noteq> (0, 0)"
  shows "\<exists>s'. doPlaceLoop s word x y dx dy wi cells is = Some (s', cells @ map (cellAt x y dx dy) is) \<and>
           wf_state n s' \<and> placements s' = placements s \<and> failed s' = failed s \<and> calls s' = calls s \<and>
           (\<forall>i \<in> set is. rd (grid s') (cellAt x y dx dy i) = Some (Some (word ! i))) \<and>
           (\<forall>c. c \<notin> cellAt x y dx dy ` set is \<longrightarrow> rd (grid s') c = rd (grid s) c) \<and>
           (\<forall>c. rd (mark s') c = (if c \<in> cellAt x y dx dy ` set is then Some True else rd (mark s) c))"
  using assms
proof (induction "is" arbitrary: s cells)
  case Nil
  then show ?case by simp
next
  case (Cons i rest)
  let ?c = "cellAt x y dx dy i"
  let ?xx = "x + dx * int i" and ?yy = "y + dy * int i"
  have c_eq: "?c = (?xx, ?yy)" by (simp add: cellAt_def)
  have inb_c: "inb (int n) ?c" using Cons.prems(2) by simp
  have wfg: "wf_matrix n (grid s)" and wfm: "wf_matrix n (mark s)" and wfo: "wf_matrix n (owner s)"
    using Cons.prems(1) by (simp_all add: wf_state_def)
  obtain g' where g': "cell_write (grid s) ?xx ?yy (Some (word ! i)) = Some g'"
    using cell_write_defined[of "grid s" ?xx ?yy] rd_inb[OF wfg, of ?c] inb_c c_eq by metis
  obtain m' where m': "cell_write (mark s) ?xx ?yy True = Some m'"
    using cell_write_defined[of "mark s" ?xx ?yy] rd_inb[OF wfm, of ?c] inb_c c_eq by metis
  obtain ow where ow: "cell_read (owner s) ?xx ?yy = Some ow"
    using rd_inb[OF wfo, of ?c] inb_c c_eq by (auto simp: rd_def)
  obtain o' where o': "(if ow = None then cell_write (owner s) ?xx ?yy (Some wi) else Some (owner s)) = Some o'"
    using cell_write_defined[of "owner s" ?xx ?yy "Some wi"] rd_inb[OF wfo, of ?c] inb_c c_eq
    by (cases ow) auto
  have wfo': "wf_matrix n o'"
    using o' wfo cell_write_wf by (auto split: if_splits)
  let ?s1 = "s\<lparr>grid := g', mark := m', owner := o'\<rparr>"
  have wf1: "wf_state n ?s1"
    using cell_write_wf[OF g' wfg] cell_write_wf[OF m' wfm] wfo' by (simp add: wf_state_def)
  have step: "doPlaceLoop s word x y dx dy wi cells (i # rest) =
              doPlaceLoop ?s1 word x y dx dy wi (cells @ [?c]) rest"
    using g' m' ow o' by (simp add: Let_def c_eq)
  have p2: "\<forall>i \<in> set rest. inb (int n) (cellAt x y dx dy i)" using Cons.prems(2) by simp
  have p3: "distinct rest" using Cons.prems(3) by simp
  from Cons.IH[OF wf1 p2 p3 Cons.prems(4), of "cells @ [?c]"]
  obtain s' where s': "doPlaceLoop ?s1 word x y dx dy wi (cells @ [?c]) rest =
        Some (s', (cells @ [?c]) @ map (cellAt x y dx dy) rest)"
      and wf': "wf_state n s'"
      and keep: "placements s' = placements ?s1" "failed s' = failed ?s1" "calls s' = calls ?s1"
      and letters: "\<forall>i \<in> set rest. rd (grid s') (cellAt x y dx dy i) = Some (Some (word ! i))"
      and frame: "\<forall>c. c \<notin> cellAt x y dx dy ` set rest \<longrightarrow> rd (grid s') c = rd (grid ?s1) c"
      and marks: "\<forall>c. rd (mark s') c = (if c \<in> cellAt x y dx dy ` set rest then Some True else rd (mark ?s1) c)"
    by blast
  have fresh: "?c \<notin> cellAt x y dx dy ` set rest"
    using Cons.prems(3) cellAt_inj[OF Cons.prems(4)] by auto
  have g1: "\<And>c. rd g' c = (if c = ?c then Some (Some (word ! i)) else rd (grid s) c)"
    using cell_write_rd[OF g'] c_eq by simp
  have m1: "\<And>c. rd m' c = (if c = ?c then Some True else rd (mark s) c)"
    using cell_write_rd[OF m'] c_eq by simp
  have "rd (grid s') ?c = rd g' ?c" using frame[rule_format, OF fresh] by simp
  then have "rd (grid s') ?c = Some (Some (word ! i))" using g1 by simp
  then have A: "\<forall>j \<in> set (i # rest). rd (grid s') (cellAt x y dx dy j) = Some (Some (word ! j))"
    using letters by simp
  have B: "\<forall>c. c \<notin> cellAt x y dx dy ` set (i # rest) \<longrightarrow> rd (grid s') c = rd (grid s) c"
    using frame g1 by auto
  have C: "\<forall>c. rd (mark s') c = (if c \<in> cellAt x y dx dy ` set (i # rest) then Some True else rd (mark s) c)"
    using marks m1 by auto
  show ?case
    unfolding step using s' wf' keep A B C by (intro exI[of _ s']) simp
qed

lemma doPlace_effect:
  assumes wf: "wf_state n s"
    and inb: "\<forall>i < length word. inb (int n) (cellAt x y dx dy i)"
    and dir: "(dx, dy) \<noteq> (0, 0)"
  shows "\<exists>s'. doPlace s word x y dx dy wi = Some s' \<and> wf_state n s' \<and>
           placements s' = placements s @ [(word, line_cells x y dx dy (length word))] \<and>
           failed s' = failed s \<and> calls s' = calls s \<and>
           (\<forall>i < length word. rd (grid s') (cellAt x y dx dy i) = Some (Some (word ! i))) \<and>
           (\<forall>c. c \<notin> set (line_cells x y dx dy (length word)) \<longrightarrow> rd (grid s') c = rd (grid s) c) \<and>
           (\<forall>c. rd (mark s') c = (if c \<in> set (line_cells x y dx dy (length word)) then Some True else rd (mark s) c))"
proof -
  have "\<forall>i \<in> set [0..<length word]. inb (int n) (cellAt x y dx dy i)" using inb by simp
  from doPlaceLoop_effect[OF wf this _ dir, of word wi "[]"]
  obtain s' where s': "doPlaceLoop s word x y dx dy wi [] [0..<length word] =
        Some (s', map (cellAt x y dx dy) [0..<length word])"
      and wf': "wf_state n s'"
      and keep: "placements s' = placements s" "failed s' = failed s" "calls s' = calls s"
      and letters: "\<forall>i \<in> set [0..<length word]. rd (grid s') (cellAt x y dx dy i) = Some (Some (word ! i))"
      and frame: "\<forall>c. c \<notin> cellAt x y dx dy ` set [0..<length word] \<longrightarrow> rd (grid s') c = rd (grid s) c"
      and marks: "\<forall>c. rd (mark s') c = (if c \<in> cellAt x y dx dy ` set [0..<length word] then Some True else rd (mark s) c)"
    by auto
  let ?t = "s'\<lparr>placements := placements s' @ [(word, map (cellAt x y dx dy) [0..<length word])]\<rparr>"
  have "doPlace s word x y dx dy wi = Some ?t" by (simp add: doPlace_def s')
  moreover have "wf_state n ?t" using wf' by (simp add: wf_state_def)
  ultimately show ?thesis
    using keep letters frame marks by (intro exI[of _ ?t]) (simp add: line_cells_def)
qed

lemma randInt_range: "0 \<le> r \<Longrightarrow> r < 1 \<Longrightarrow> 0 < n \<Longrightarrow> 0 \<le> randInt r n \<and> randInt r n < n"
proof -
  assume r: "0 \<le> r" "r < 1" and n: "0 < n"
  have "0 \<le> r * of_int n" using r n by simp
  moreover have "r * of_int n < of_int n" using r n by simp
  ultimately show ?thesis unfolding randInt_def by (simp add: floor_less_iff)
qed

lemma choice_Some:
  "0 \<le> r \<Longrightarrow> r < 1 \<Longrightarrow> arr \<noteq> [] \<Longrightarrow> \<exists>d. choice r arr = Some d \<and> d \<in> set arr"
  using randInt_range[of r "int (length arr)"] by (auto simp: choice_def Let_def)

lemma choice_mem: "choice r arr = Some d \<Longrightarrow> d \<in> set arr"
  by (auto simp: choice_def Let_def split: if_splits)

lemma dirs_nonzero: "d \<in> set (dirs ad) \<Longrightarrow> d \<noteq> (0, 0)"
  by (auto simp: dirs_def split: if_splits)

lemma dirs_nonempty: "dirs ad \<noteq> []"
  by (simp add: dirs_def)

lemma tryPlace_cases:
  "tryPlace rnd sz ds word wi m s = Some (s', b) \<Longrightarrow>
   (if b then \<exists>k x y dx dy. (dx, dy) \<in> set ds \<and>
               canPlace sz (grid s) word x y dx dy wi = Some True \<and>
               doPlace (s\<lparr>calls := k\<rparr>) word x y dx dy wi = Some s'
    else s' = s\<lparr>calls := calls s + 3 * m\<rparr>)"
proof (induction m arbitrary: s)
  case 0
  then show ?case by simp
next
  case (Suc m)
  from Suc.prems obtain dx dy where d: "choice (rnd (calls s)) ds = Some (dx, dy)"
    by (auto split: option.splits)
  define len where "len = int (length word)"
  define xMin where "xMin = (if dx = -1 then len - 1 else 0)"
  define xMax where "xMax = (if dx = 1 then sz - len else sz - 1)"
  define yMin where "yMin = (if dy = -1 then len - 1 else 0)"
  define yMax where "yMax = (if dy = 1 then sz - len else sz - 1)"
  define x where "x = randInt (rnd (calls s + 1)) (xMax - xMin + 1) + xMin"
  define y where "y = randInt (rnd (calls s + 2)) (yMax - yMin + 1) + yMin"
  define s1 where "s1 = s\<lparr>calls := calls s + 3\<rparr>"
  have unfold: "tryPlace rnd sz ds word wi (Suc m) s =
     (case canPlace sz (grid s1) word x y dx dy wi of
        None \<Rightarrow> None
      | Some True \<Rightarrow> (case doPlace s1 word x y dx dy wi of None \<Rightarrow> None | Some s2 \<Rightarrow> Some (s2, True))
      | Some False \<Rightarrow> tryPlace rnd sz ds word wi m s1)"
    by (simp only: tryPlace.simps d option.case prod.case Let_def
          len_def xMin_def xMax_def yMin_def yMax_def x_def y_def s1_def)
  have gs1: "grid s1 = grid s" by (simp add: s1_def)
  show ?case
  proof (cases "canPlace sz (grid s1) word x y dx dy wi")
    case None
    then show ?thesis using Suc.prems unfold by simp
  next
    case (Some ok)
    show ?thesis
    proof (cases ok)
      case True
      then have "doPlace s1 word x y dx dy wi = Some s'" and "b"
        using Suc.prems unfold Some by (auto split: option.splits)
      then show ?thesis using Some True gs1 choice_mem[OF d] unfolding s1_def
        by (simp only: if_True) metis
    next
      case False
      then have rec: "tryPlace rnd sz ds word wi m s1 = Some (s', b)"
        using Suc.prems unfold Some by simp
      from Suc.IH[OF rec] show ?thesis
        by (auto simp: s1_def split: if_splits)
    qed
  qed
qed

lemma tryPlace_total:
  assumes rng: "\<forall>k. 0 \<le> rnd k \<and> rnd k < 1" and wf: "wf_state n s"
  shows "\<exists>s' b. tryPlace rnd (int n) (dirs ad) word wi m s = Some (s', b)"
  using wf
proof (induction m arbitrary: s)
  case 0
  then show ?case by auto
next
  case (Suc m)
  obtain dd where dd: "choice (rnd (calls s)) (dirs ad) = Some dd" "dd \<in> set (dirs ad)"
    using choice_Some[of "rnd (calls s)" "dirs ad"] rng dirs_nonempty by blast
  obtain dx dy where d: "choice (rnd (calls s)) (dirs ad) = Some (dx, dy)" and mem: "(dx, dy) \<in> set (dirs ad)"
    using dd by (cases dd) auto
  define len where "len = int (length word)"
  define xMin where "xMin = (if dx = -1 then len - 1 else 0)"
  define xMax where "xMax = (if dx = 1 then int n - len else int n - 1)"
  define yMin where "yMin = (if dy = -1 then len - 1 else 0)"
  define yMax where "yMax = (if dy = 1 then int n - len else int n - 1)"
  define x where "x = randInt (rnd (calls s + 1)) (xMax - xMin + 1) + xMin"
  define y where "y = randInt (rnd (calls s + 2)) (yMax - yMin + 1) + yMin"
  define s1 where "s1 = s\<lparr>calls := calls s + 3\<rparr>"
  have unfold: "tryPlace rnd (int n) (dirs ad) word wi (Suc m) s =
     (case canPlace (int n) (grid s1) word x y dx dy wi of
        None \<Rightarrow> None
      | Some True \<Rightarrow> (case doPlace s1 word x y dx dy wi of None \<Rightarrow> None | Some s2 \<Rightarrow> Some (s2, True))
      | Some False \<Rightarrow> tryPlace rnd (int n) (dirs ad) word wi m s1)"
    by (simp only: tryPlace.simps d option.case prod.case Let_def
          len_def xMin_def xMax_def yMin_def yMax_def x_def y_def s1_def)
  have wf1: "wf_state n s1" using Suc.prems by (simp add: s1_def wf_state_def)
  then have wfg: "wf_matrix n (grid s1)" by (simp add: wf_state_def)
  show ?case
  proof (cases "\<forall>i < length word. cell_ok n (grid s1) word x y dx dy i")
    case True
    then have "\<forall>i < length word. inb (int n) (cellAt x y dx dy i)" by (simp add: cell_ok_def)
    from doPlace_effect[OF wf1 this dirs_nonzero[OF mem], of wi]
    obtain s2 where "doPlace s1 word x y dx dy wi = Some s2" by blast
    moreover have "canPlace (int n) (grid s1) word x y dx dy wi = Some True"
      using True by (simp add: canPlace_wf[OF wfg])
    ultimately show ?thesis unfolding unfold by auto
  next
    case False
    then have "canPlace (int n) (grid s1) word x y dx dy wi = Some False"
      by (simp add: canPlace_wf[OF wfg])
    then show ?thesis unfolding unfold using Suc.IH[OF wf1] by simp
  qed
qed

subsection \<open>A committed placement keeps the invariant\<close>

lemma covered_snoc: "covered (ps @ [p]) = covered ps \<union> set (snd p)"
  by (auto simp: covered_def)


lemma covered_iff: "c \<in> covered ps \<longleftrightarrow> (\<exists>k < length ps. c \<in> set (snd (ps ! k)))"
  unfolding covered_def UN_iff by (metis in_set_conv_nth)

lemma line_cells_nth: "i < n \<Longrightarrow> line_cells x y dx dy n ! i = cellAt x y dx dy i"
  by (simp add: line_cells_def)

lemma line_cells_set: "c \<in> set (line_cells x y dx dy n) \<longleftrightarrow> (\<exists>i < n. c = cellAt x y dx dy i)"
  by (auto simp: line_cells_def)

lemma adjacent8_sym: "adjacent8 c d \<Longrightarrow> adjacent8 d c"
  by (auto simp: adjacent8_def)

lemma spacing_snoc:
  assumes old: "spacing_joint ps"
    and new: "\<And>c d. c \<in> set (snd p) \<Longrightarrow> c \<notin> covered ps \<Longrightarrow> d \<in> covered ps \<Longrightarrow> \<not> adjacent8 c d"
  shows "spacing_joint (ps @ [p])"
  unfolding spacing_joint_def
proof (intro allI impI)
  fix c d
  assume a: "c \<in> covered (ps @ [p]) \<and> d \<in> covered (ps @ [p]) \<and> adjacent8 c d"
  then have c: "c \<in> covered ps \<or> c \<in> set (snd p)" and d: "d \<in> covered ps \<or> d \<in> set (snd p)"
    and adj: "adjacent8 c d"
    by (simp_all add: covered_snoc)
  show "\<exists>q \<in> set (ps @ [p]). c \<in> set (snd q) \<and> d \<in> set (snd q)"
  proof (cases "c \<in> covered ps")
    case True
    note cT = this
    show ?thesis
    proof (cases "d \<in> covered ps")
      case True
      then obtain q where "q \<in> set ps" "c \<in> set (snd q)" "d \<in> set (snd q)"
        using old cT adj unfolding spacing_joint_def by blast
      then show ?thesis by auto
    next
      case False
      then have "d \<in> set (snd p)" using d by blast
      from new[OF this False cT] have False using adj adjacent8_sym by blast
      then show ?thesis ..
    qed
  next
    case False
    then have cp: "c \<in> set (snd p)" using c by blast
    have "d \<notin> covered ps" using new[OF cp False] adj by blast
    then have "d \<in> set (snd p)" using d by blast
    then show ?thesis using cp by auto
  qed
qed

lemma doPlace_inv:
  assumes inv: "gen_inv n ad s"
    and dir: "(dx, dy) \<in> set (dirs ad)"
    and can: "canPlace (int n) (grid s) word x y dx dy wi = Some True"
    and place: "doPlace (s\<lparr>calls := k\<rparr>) word x y dx dy wi = Some s'"
  shows "gen_inv n ad s' \<and> failed s' = failed s \<and>
         placements s' = placements s @ [(word, line_cells x y dx dy (length word))] \<and>
         (\<forall>c ch. rd (grid s) c = Some (Some ch) \<longrightarrow> rd (grid s') c = Some (Some ch))"
proof -
  let ?L = "line_cells x y dx dy (length word)"
  let ?g = "grid s"
  have wf: "wf_state n s" and wfg: "wf_matrix n ?g" using inv by (simp_all add: gen_inv_def wf_state_def)
  have ok: "\<forall>i < length word. cell_ok n ?g word x y dx dy i"
    using can by (simp add: canPlace_wf[OF wfg])
  have inb: "\<forall>i < length word. inb (int n) (cellAt x y dx dy i)" using ok by (simp add: cell_ok_def)
  have wfk: "wf_state n (s\<lparr>calls := k\<rparr>)" using wf by (simp add: wf_state_def)
  from doPlace_effect[OF wfk inb dirs_nonzero[OF dir], of wi] place
  have wf': "wf_state n s'"
    and pl: "placements s' = placements s @ [(word, ?L)]"
    and fl: "failed s' = failed s"
    and letters: "\<forall>i < length word. rd (grid s') (cellAt x y dx dy i) = Some (Some (word ! i))"
    and frame: "\<forall>c. c \<notin> set ?L \<longrightarrow> rd (grid s') c = rd ?g c"
    and marks: "\<forall>c. rd (mark s') c = (if c \<in> set ?L then Some True else rd (mark s) c)"
    by auto
  have keep: "rd (grid s') c = Some (Some ch)" if "rd ?g c = Some (Some ch)" for c ch
  proof (cases "c \<in> set ?L")
    case True
    then obtain i where i: "i < length word" "c = cellAt x y dx dy i" by (auto simp: line_cells_set)
    then have "rd ?g c = Some (Some (word ! i))" using ok that by (auto simp: cell_ok_def)
    then show ?thesis using that letters i by simp
  next
    case False
    then show ?thesis using frame[rule_format, OF False] that by simp
  qed
  have occL: "occupied (grid s') c" if "c \<in> set ?L" for c
    using that letters by (auto simp: line_cells_set occupied_def)
  have sp_old: "spells (grid s') ad p" if "p \<in> set (placements s)" for p
  proof -
    have "spells ?g ad p" using inv that by (simp add: gen_inv_def)
    then show ?thesis using keep unfolding spells_def by blast
  qed
  have sp_new: "spells (grid s') ad (word, ?L)"
    unfolding spells_def using dir letters by (auto simp: line_cells_nth)
  have I2: "\<forall>p \<in> set (placements s'). spells (grid s') ad p"
    using sp_old sp_new pl by auto
  have cov: "\<forall>c. occupied ?g c \<longleftrightarrow> c \<in> covered (placements s)"
    and mk: "\<forall>c. rd (mark s) c = Some True \<longleftrightarrow> c \<in> covered (placements s)"
    and sp: "spacing_joint (placements s)"
    using inv by (simp_all add: gen_inv_def)
  have I3: "\<forall>c. occupied (grid s') c \<longleftrightarrow> c \<in> covered (placements s')"
  proof
    fix c
    show "occupied (grid s') c \<longleftrightarrow> c \<in> covered (placements s')"
    proof (cases "c \<in> set ?L")
      case True
      then show ?thesis using occL pl by (simp add: covered_snoc)
    next
      case False
      then have "occupied (grid s') c = occupied ?g c"
        using frame[rule_format, OF False] by (simp add: occupied_def)
      then show ?thesis using False cov pl by (simp add: covered_snoc)
    qed
  qed
  have I4: "\<forall>c. rd (mark s') c = Some True \<longleftrightarrow> c \<in> covered (placements s')"
    using marks mk pl by (simp add: covered_snoc)
  have I5: "spacing_joint (placements s')"
    unfolding pl
  proof (rule spacing_snoc[OF sp])
    fix c d
    assume c: "c \<in> set (snd (word, ?L))" and cn: "c \<notin> covered (placements s)"
      and d: "d \<in> covered (placements s)"
    obtain i where i: "i < length word" "c = cellAt x y dx dy i" using c by (auto simp: line_cells_set)
    have "\<not> occupied ?g c" using cn cov by blast
    then have "rd ?g c \<noteq> Some (Some (word ! i))" by (auto simp: occupied_def)
    then have "\<forall>d. adjacent8 c d \<longrightarrow> \<not> occupied ?g d" using ok i by (auto simp: cell_ok_def)
    moreover have "occupied ?g d" using d cov by blast
    ultimately show "\<not> adjacent8 c d" by blast
  qed
  show ?thesis
    unfolding gen_inv_def using wf' I2 I3 I4 I5 fl pl keep by blast
qed

subsection \<open>The loop over the words, the backfill, the whole call\<close>

lemma gen_inv_calls: "gen_inv n ad (s\<lparr>calls := k\<rparr>) = gen_inv n ad s"
  by (simp add: gen_inv_def wf_state_def)

lemma gen_inv_failed: "gen_inv n ad (s\<lparr>failed := f\<rparr>) = gen_inv n ad s"
  by (simp add: gen_inv_def wf_state_def)

lemma tryPlace_result:
  assumes inv: "gen_inv n ad s"
    and run: "tryPlace rnd (int n) (dirs ad) word wi m s = Some (s', b)"
  shows "gen_inv n ad s' \<and> failed s' = failed s \<and>
         (\<forall>c ch. rd (grid s) c = Some (Some ch) \<longrightarrow> rd (grid s') c = Some (Some ch)) \<and>
         (if b then \<exists>cells. placements s' = placements s @ [(word, cells)]
          else s' = s\<lparr>calls := calls s + 3 * m\<rparr>)"
proof (cases b)
  case True
  then obtain k x y dx dy where "(dx, dy) \<in> set (dirs ad)"
      "canPlace (int n) (grid s) word x y dx dy wi = Some True"
      "doPlace (s\<lparr>calls := k\<rparr>) word x y dx dy wi = Some s'"
    using tryPlace_cases[OF run] by auto
  from doPlace_inv[OF inv this] show ?thesis using True by simp
next
  case False
  then have "s' = s\<lparr>calls := calls s + 3 * m\<rparr>" using tryPlace_cases[OF run] by simp
  then show ?thesis using inv False by (simp add: gen_inv_calls)
qed

lemma placeWords_result:
  assumes "gen_inv n ad s"
    and "placeWords rnd (int n) (dirs ad) srt s wis = Some s'"
  shows "gen_inv n ad s' \<and>
         (\<forall>c ch. rd (grid s) c = Some (Some ch) \<longrightarrow> rd (grid s') c = Some (Some ch)) \<and>
         (\<exists>flags. length flags = length wis \<and>
            map fst (placements s') = map fst (placements s) @ fst (outcome_split (map ((!) srt) wis) flags) \<and>
            failed s' = failed s @ snd (outcome_split (map ((!) srt) wis) flags))"
  using assms
proof (induction wis arbitrary: s)
  case Nil
  then show ?case by (simp add: outcome_split_def)
next
  case (Cons wi rest)
  let ?w = "srt ! wi"
  from Cons.prems(2) obtain s1 placed where
    t: "tryPlace rnd (int n) (dirs ad) ?w wi attempts s = Some (s1, placed)"
    by (auto simp: Let_def split: option.splits)
  define s2 where "s2 = (if \<not> placed then s1\<lparr>failed := failed s1 @ [?w]\<rparr> else s1)"
  have run2: "placeWords rnd (int n) (dirs ad) srt s2 rest = Some s'"
    using Cons.prems(2) t by (simp add: Let_def s2_def)
  note r1 = tryPlace_result[OF Cons.prems(1) t]
  have "gen_inv n ad s1" using r1 by blast
  then have inv2: "gen_inv n ad s2" by (simp add: s2_def gen_inv_failed)
  have g2: "grid s2 = grid s1" by (simp add: s2_def)
  from Cons.IH[OF inv2 run2] obtain flags where
    inv': "gen_inv n ad s'"
    and keep': "\<forall>c ch. rd (grid s2) c = Some (Some ch) \<longrightarrow> rd (grid s') c = Some (Some ch)"
    and len: "length flags = length rest"
    and pl: "map fst (placements s') = map fst (placements s2) @ fst (outcome_split (map ((!) srt) rest) flags)"
    and fl: "failed s' = failed s2 @ snd (outcome_split (map ((!) srt) rest) flags)"
    by blast
  have keep: "\<forall>c ch. rd (grid s) c = Some (Some ch) \<longrightarrow> rd (grid s') c = Some (Some ch)"
    using r1 keep' g2 by metis
  have "map fst (placements s') = map fst (placements s) @ fst (outcome_split (map ((!) srt) (wi # rest)) (placed # flags)) \<and>
        failed s' = failed s @ snd (outcome_split (map ((!) srt) (wi # rest)) (placed # flags))"
  proof (cases placed)
    case True
    then obtain cells where "placements s1 = placements s @ [(?w, cells)]" "failed s1 = failed s"
      using r1 by auto
    then show ?thesis using True pl fl by (simp add: s2_def outcome_split_def)
  next
    case False
    then have "s1 = s\<lparr>calls := calls s + 3 * attempts\<rparr>" using r1 by simp
    then have "placements s2 = placements s" "failed s2 = failed s @ [?w]"
      using False by (simp_all add: s2_def)
    then show ?thesis using False pl fl by (simp add: outcome_split_def)
  qed
  then show ?case using inv' keep len by (intro conjI exI[of _ "placed # flags"]) simp_all
qed

lemma placeWords_total:
  assumes rng: "\<forall>k. 0 \<le> rnd k \<and> rnd k < 1"
    and "gen_inv n ad s"
  shows "\<exists>s'. placeWords rnd (int n) (dirs ad) srt s wis = Some s'"
  using assms(2)
proof (induction wis arbitrary: s)
  case Nil
  then show ?case by simp
next
  case (Cons wi rest)
  have wf: "wf_state n s" using Cons.prems by (simp add: gen_inv_def)
  from tryPlace_total[OF rng wf] obtain s1 placed where
    t: "tryPlace rnd (int n) (dirs ad) (srt ! wi) wi attempts s = Some (s1, placed)" by blast
  have "gen_inv n ad s1" using tryPlace_result[OF Cons.prems t] by simp
  then have "gen_inv n ad (if \<not> placed then s1\<lparr>failed := failed s1 @ [srt ! wi]\<rparr> else s1)"
    by (simp add: gen_inv_failed)
  from Cons.IH[OF this] show ?case using t by (simp add: Let_def)
qed

lemma alphabet_choice: "0 \<le> r \<Longrightarrow> r < 1 \<Longrightarrow> \<exists>l. choice r alphabet = Some l \<and> l \<in> set alphabet"
  using choice_Some[of r alphabet] by (simp add: alphabet_def)

lemma fillBlanks_effect:
  assumes rng: "\<forall>k. 0 \<le> rnd k \<and> rnd k < 1"
    and "wf_matrix n g"
    and "\<forall>c \<in> set cs. inb (int n) c"
  shows "\<exists>g' k'. fillBlanks rnd g k cs = Some (g', k') \<and> wf_matrix n g' \<and>
           (\<forall>c ch. rd g c = Some (Some ch) \<longrightarrow> rd g' c = Some (Some ch)) \<and>
           (\<forall>c \<in> set cs. \<exists>ch. rd g' c = Some (Some ch) \<and> (rd g c = Some None \<longrightarrow> ch \<in> set alphabet))"
  using assms(2,3)
proof (induction cs arbitrary: g k)
  case Nil
  then show ?case by simp
next
  case (Cons c rest)
  obtain x y where c: "c = (x, y)" by (cases c)
  have inb_c: "inb (int n) (x, y)" using Cons.prems(2) c by simp
  then obtain v where v: "cell_read g x y = Some v"
    using rd_inb[OF Cons.prems(1), of "(x, y)"] by (auto simp: rd_def)
  have rest_inb: "\<forall>c \<in> set rest. inb (int n) c" using Cons.prems(2) by simp
  show ?case
  proof (cases v)
    case None
    obtain l where l: "choice (rnd k) alphabet = Some l" "l \<in> set alphabet"
      using alphabet_choice rng by blast
    obtain g1 where g1: "cell_write g x y (Some l) = Some g1"
      using cell_write_defined[of g x y] v by (auto simp: rd_def)
    have wf1: "wf_matrix n g1" using cell_write_wf[OF g1 Cons.prems(1)] .
    have rd1: "\<And>d. rd g1 d = (if d = (x, y) then Some (Some l) else rd g d)"
      using cell_write_rd[OF g1] by simp
    have step: "fillBlanks rnd g k (c # rest) = fillBlanks rnd g1 (k + 1) rest"
      using v None l g1 c by simp
    from Cons.IH[OF wf1 rest_inb, of "k + 1"] obtain g' k' where
      run: "fillBlanks rnd g1 (k + 1) rest = Some (g', k')" and wf': "wf_matrix n g'"
      and keep: "\<forall>c ch. rd g1 c = Some (Some ch) \<longrightarrow> rd g' c = Some (Some ch)"
      and fill: "\<forall>c \<in> set rest. \<exists>ch. rd g' c = Some (Some ch) \<and> (rd g1 c = Some None \<longrightarrow> ch \<in> set alphabet)"
      by blast
    have here: "rd g' (x, y) = Some (Some l)" using keep rd1 by simp
    have K: "\<forall>d ch. rd g d = Some (Some ch) \<longrightarrow> rd g' d = Some (Some ch)"
    proof (intro allI impI)
      fix d ch assume a: "rd g d = Some (Some ch)"
      have "d \<noteq> (x, y)" using a v None by (auto simp: rd_def)
      then have "rd g1 d = Some (Some ch)" using a rd1 by simp
      then show "rd g' d = Some (Some ch)" using keep by blast
    qed
    have F: "\<forall>d \<in> set (c # rest). \<exists>ch. rd g' d = Some (Some ch) \<and> (rd g d = Some None \<longrightarrow> ch \<in> set alphabet)"
    proof
      fix d assume d: "d \<in> set (c # rest)"
      show "\<exists>ch. rd g' d = Some (Some ch) \<and> (rd g d = Some None \<longrightarrow> ch \<in> set alphabet)"
      proof (cases "d = (x, y)")
        case True
        then show ?thesis using here l by simp
      next
        case False
        then have "d \<in> set rest" using d c by simp
        then show ?thesis using fill rd1 False by auto
      qed
    qed
    show ?thesis unfolding step using run wf' K F by blast
  next
    case (Some ch0)
    have step: "fillBlanks rnd g k (c # rest) = fillBlanks rnd g k rest"
      using v Some c by simp
    from Cons.IH[OF Cons.prems(1) rest_inb, of k] obtain g' k' where
      run: "fillBlanks rnd g k rest = Some (g', k')" and wf': "wf_matrix n g'"
      and keep: "\<forall>c ch. rd g c = Some (Some ch) \<longrightarrow> rd g' c = Some (Some ch)"
      and fill: "\<forall>c \<in> set rest. \<exists>ch. rd g' c = Some (Some ch) \<and> (rd g c = Some None \<longrightarrow> ch \<in> set alphabet)"
      by blast
    have "rd g (x, y) = Some (Some ch0)" using v Some by (simp add: rd_def)
    then have "rd g' c = Some (Some ch0) \<and> rd g c \<noteq> Some None" using keep c by simp
    then have F: "\<forall>d \<in> set (c # rest). \<exists>ch. rd g' d = Some (Some ch) \<and> (rd g d = Some None \<longrightarrow> ch \<in> set alphabet)"
      using fill by auto
    show ?thesis unfolding step using run wf' keep F by blast
  qed
qed

lemma scan_order_set: "c \<in> set (scan_order n) \<longleftrightarrow> inb (int n) c"
proof (cases c)
  case (Pair a b)
  have "(a, b) \<in> set (scan_order n) \<longleftrightarrow> (\<exists>y < n. \<exists>x < n. a = int x \<and> b = int y)"
    by (fastforce simp: scan_order_def)
  also have "\<dots> \<longleftrightarrow> inb (int n) (a, b)"
  proof
    assume "\<exists>y < n. \<exists>x < n. a = int x \<and> b = int y"
    then show "inb (int n) (a, b)" by (auto simp: inb_def)
  next
    assume "inb (int n) (a, b)"
    then have "nat b < n \<and> nat a < n \<and> a = int (nat a) \<and> b = int (nat b)" by (auto simp: inb_def)
    then show "\<exists>y < n. \<exists>x < n. a = int x \<and> b = int y" by blast
  qed
  finally show ?thesis using Pair by simp
qed

lemma new_matrix_wf: "wf_matrix n (new_matrix n v)"
  by (simp add: wf_matrix_def new_matrix_def)

lemma new_matrix_rd: "rd (new_matrix n v) c = (if inb (int n) c then Some v else None)"
  unfolding rd_wf[OF new_matrix_wf] by (auto simp: new_matrix_def inb_def)

lemma init_inv: "gen_inv n ad (init_state n)"
  by (simp add: gen_inv_def init_state_def wf_state_def new_matrix_wf covered_def spacing_joint_def
      occupied_def new_matrix_rd)

lemma generateWordsearch_sorted:
  "generateWordsearch rnd words n ad = placeSorted rnd (js_sort by_length_desc words) n ad"
  by (simp add: generateWordsearch_def generateWordsearch_call_def spread_copy_def sort_in_place_def
      split: option.splits)

lemma fill_after:
  assumes rng: "\<forall>k. 0 \<le> rnd k \<and> rnd k < 1" and inv: "gen_inv n ad s"
  shows "\<exists>g k. fillBlanks rnd (grid s) (calls s) (scan_order n) = Some (g, k) \<and> wf_matrix n g \<and>
           (\<forall>c ch. rd (grid s) c = Some (Some ch) \<longrightarrow> rd g c = Some (Some ch)) \<and>
           (\<forall>c. inb (int n) c \<longrightarrow> (\<exists>ch. rd g c = Some (Some ch) \<and>
                  (\<not> occupied (grid s) c \<longrightarrow> ch \<in> set alphabet)))"
proof -
  have wfg: "wf_matrix n (grid s)" using inv by (simp add: gen_inv_def wf_state_def)
  have "\<forall>c \<in> set (scan_order n). inb (int n) c" by (simp add: scan_order_set)
  from fillBlanks_effect[OF rng wfg this, of "calls s"] obtain g k where
    fb: "fillBlanks rnd (grid s) (calls s) (scan_order n) = Some (g, k)" and wf': "wf_matrix n g"
    and keep: "\<forall>c ch. rd (grid s) c = Some (Some ch) \<longrightarrow> rd g c = Some (Some ch)"
    and fill: "\<forall>c \<in> set (scan_order n). \<exists>ch. rd g c = Some (Some ch) \<and> (rd (grid s) c = Some None \<longrightarrow> ch \<in> set alphabet)"
    by blast
  have fill': "\<exists>ch. rd g c = Some (Some ch) \<and> (\<not> occupied (grid s) c \<longrightarrow> ch \<in> set alphabet)"
    if inbc: "inb (int n) c" for c
  proof -
    have "c \<in> set (scan_order n)" using inbc by (simp add: scan_order_set)
    from bspec[OF fill this]
    obtain ch where ch: "rd g c = Some (Some ch)" "rd (grid s) c = Some None \<longrightarrow> ch \<in> set alphabet"
      by blast
    obtain v where "rd (grid s) c = Some v" using inbc by (simp add: rd_wf[OF wfg])
    then have "\<not> occupied (grid s) c \<longrightarrow> rd (grid s) c = Some None"
      by (cases v) (auto simp: occupied_def)
    then show ?thesis using ch by blast
  qed
  show ?thesis using fb wf' keep fill' by blast
qed

lemma placeSorted_master:
  assumes rng: "\<forall>k. 0 \<le> rnd k \<and> rnd k < 1"
  shows "\<exists>res s flags. placeSorted rnd srt n ad = Some res \<and> gen_inv n ad s \<and>
           placements res = placements s \<and> mark res = mark s \<and> failed res = failed s \<and>
           wf_matrix n (grid res) \<and>
           (\<forall>c ch. rd (grid s) c = Some (Some ch) \<longrightarrow> rd (grid res) c = Some (Some ch)) \<and>
           (\<forall>c. inb (int n) c \<longrightarrow> (\<exists>ch. rd (grid res) c = Some (Some ch) \<and>
                  (\<not> occupied (grid s) c \<longrightarrow> ch \<in> set alphabet))) \<and>
           length flags = length srt \<and>
           map fst (placements res) = fst (outcome_split srt flags) \<and>
           failed res = snd (outcome_split srt flags)"
proof -
  obtain s where run: "placeWords rnd (int n) (dirs ad) srt (init_state n) [0..<length srt] = Some s"
    using placeWords_total[OF rng init_inv] by blast
  from placeWords_result[OF init_inv run] obtain flags where
    inv: "gen_inv n ad s" and len: "length flags = length srt"
    and pl: "map fst (placements s) = fst (outcome_split srt flags)"
    and fl: "failed s = snd (outcome_split srt flags)"
    by (auto simp: init_state_def map_nth)
  from fill_after[OF rng inv] obtain g k where
    fb: "fillBlanks rnd (grid s) (calls s) (scan_order n) = Some (g, k)" and wf': "wf_matrix n g"
    and keep: "\<forall>c ch. rd (grid s) c = Some (Some ch) \<longrightarrow> rd g c = Some (Some ch)"
    and fill: "\<forall>c. inb (int n) c \<longrightarrow> (\<exists>ch. rd g c = Some (Some ch) \<and>
                  (\<not> occupied (grid s) c \<longrightarrow> ch \<in> set alphabet))"
    by blast
  let ?res = "\<lparr>grid = g, mark = mark s, placements = placements s, failed = failed s\<rparr>"
  have res: "placeSorted rnd srt n ad = Some ?res"
    by (simp add: placeSorted_def run fb)
  show ?thesis
    using res inv wf' keep fill len pl fl
    by (intro exI[of _ ?res] exI[of _ s] exI[of _ flags]) simp
qed

lemma insert_cmp_insort:
  "insert_cmp by_length_desc a xs = insort_key (\<lambda>w. - int (length w)) a xs"
  by (induction xs) (simp_all add: by_length_desc_def)

lemma js_sort_sort_key: "js_sort by_length_desc xs = sort_key (\<lambda>w. - int (length w)) xs"
  by (induction xs) (simp_all add: js_sort_def sort_key_def insert_cmp_insort)

lemma generate_master:
  assumes rng: "\<forall>k. 0 \<le> rnd k \<and> rnd k < 1"
  shows "\<exists>res s flags. generateWordsearch rnd words n ad = Some res \<and> gen_inv n ad s \<and>
           placements res = placements s \<and> mark res = mark s \<and> failed res = failed s \<and>
           wf_matrix n (grid res) \<and>
           (\<forall>c ch. rd (grid s) c = Some (Some ch) \<longrightarrow> rd (grid res) c = Some (Some ch)) \<and>
           (\<forall>c. inb (int n) c \<longrightarrow> (\<exists>ch. rd (grid res) c = Some (Some ch) \<and>
                  (\<not> occupied (grid s) c \<longrightarrow> ch \<in> set alphabet))) \<and>
           length flags = length words \<and>
           map fst (placements res) = fst (outcome_split (js_sort by_length_desc words) flags) \<and>
           failed res = snd (outcome_split (js_sort by_length_desc words) flags)"
proof -
  have "length (js_sort by_length_desc words) = length words" by (simp add: js_sort_sort_key)
  then show ?thesis
    using placeSorted_master[OF rng, of "js_sort by_length_desc words" n ad]
    unfolding generateWordsearch_sorted by simp
qed

subsection \<open>The sorted copy and the split into placed and failed words\<close>

lemma draws_zero: "draws rnd_zero"
  by (simp add: draws_def rnd_zero_def)

lemma outcome_split_mset:
  "length flags = length ws \<Longrightarrow>
   mset (fst (outcome_split ws flags)) + mset (snd (outcome_split ws flags)) = mset ws"
proof (induction flags ws rule: list_induct2)
  case Nil
  then show ?case by (simp add: outcome_split_def)
next
  case (Cons f fs w ws)
  then show ?case by (cases f) (simp_all add: outcome_split_def)
qed

lemma outcome_split_subseq:
  "length flags = length ws \<Longrightarrow>
   subseq (fst (outcome_split ws flags)) ws \<and> subseq (snd (outcome_split ws flags)) ws"
proof (induction flags ws rule: list_induct2)
  case Nil
  then show ?case by (simp add: outcome_split_def)
next
  case (Cons f fs w ws)
  then show ?case by (cases f) (auto simp: outcome_split_def intro: subseq_Cons2 list_emb_Cons)
qed

lemma subseq_sorted_wrt: "subseq xs ys \<Longrightarrow> sorted_wrt R ys \<Longrightarrow> sorted_wrt R xs"
proof (induction rule: list_emb.induct)
  case (list_emb_Nil ys)
  then show ?case by simp
next
  case (list_emb_Cons xs ys y)
  then show ?case by simp
next
  case (list_emb_Cons2 x y xs ys)
  have "set xs \<subseteq> set ys" using list_emb_Cons2.hyps(2) by (auto dest: list_emb_set)
  then show ?case using list_emb_Cons2 by auto
qed

lemma js_sort_mset: "mset (js_sort by_length_desc words) = mset words"
  by (simp add: js_sort_sort_key)

lemma js_sort_longest_first: "longest_first (js_sort by_length_desc words)"
proof -
  have "sorted (map (\<lambda>w. - int (length w)) (js_sort by_length_desc words))"
    by (simp add: js_sort_sort_key)
  then show ?thesis by (simp add: longest_first_def sorted_map sorted_wrt_iff_nth_less)
qed

lemma js_sort_stable:
  "filter (\<lambda>w. length w = k) (js_sort by_length_desc words) = filter (\<lambda>w. length w = k) words"
proof -
  have "filter (\<lambda>w. - int (length w) = - int k) (sort_key (\<lambda>w. - int (length w)) words) =
        filter (\<lambda>w. - int (length w) = - int k) words"
    by (rule sort_key_stable)
  then show ?thesis by (simp add: js_sort_sort_key)
qed

subsection \<open>Lines that fit the grid, letters that stay\<close>

lemma draws_c2: "draws rnd_c2"
  by (simp add: draws_def rnd_c2_def)

lemma precondition_cat_dog: "precondition [''CAT'', ''DOG''] 10"
  by (simp add: precondition_def alphabet_def)

lemma subseq_subset: "subseq xs ys \<Longrightarrow> set xs \<subseteq> set ys"
  by (auto dest: list_emb_set)

lemma line_fits:
  assumes dir: "(dx, dy) \<in> set (dirs ad)"
    and inb: "\<forall>i < len. inb (int n) (cellAt x y dx dy i)"
  shows "len \<le> n"
proof (cases len)
  case 0
  then show ?thesis by simp
next
  case (Suc m)
  have a: "inb (int n) (cellAt x y dx dy 0)" and b: "inb (int n) (cellAt x y dx dy m)"
    using inb Suc by simp_all
  have "dx = 1 \<or> dx = -1 \<or> dy = 1 \<or> dy = -1"
    using dir by (auto simp: dirs_def split: if_splits)
  then have "int m < int n" using a b by (auto simp: inb_def cellAt_def)
  then show ?thesis using Suc by simp
qed

lemma canPlace_too_long:
  assumes "wf_matrix n g" and "(dx, dy) \<in> set (dirs ad)" and "n < length word"
  shows "canPlace (int n) g word x y dx dy wi = Some False"
proof -
  have "\<not> (\<forall>i < length word. inb (int n) (cellAt x y dx dy i))"
    using line_fits[OF assms(2), of "length word" n x y] assms(3) by auto
  then show ?thesis unfolding canPlace_wf[OF assms(1)] by (auto simp: cell_ok_def)
qed

lemma spells_length:
  assumes inv: "gen_inv n ad s" and p: "p \<in> set (placements s)"
  shows "length (fst p) \<le> n"
proof -
  have sp: "spells (grid s) ad p" and wfg: "wf_matrix n (grid s)"
    using inv p by (simp_all add: gen_inv_def wf_state_def)
  then obtain x y dx dy where d: "(dx, dy) \<in> set (dirs ad)"
      and L: "snd p = line_cells x y dx dy (length (fst p))"
      and lt: "\<forall>i < length (fst p). rd (grid s) (snd p ! i) = Some (Some (fst p ! i))"
    unfolding spells_def by blast
  have "\<forall>i < length (fst p). inb (int n) (cellAt x y dx dy i)"
  proof (intro allI impI)
    fix i assume i: "i < length (fst p)"
    then have "rd (grid s) (cellAt x y dx dy i) \<noteq> None" using lt L by (auto simp: line_cells_nth)
    then show "inb (int n) (cellAt x y dx dy i)" using rd_inb[OF wfg] by blast
  qed
  from line_fits[OF d this] show ?thesis .
qed

lemma tryPlace_keep:
  assumes wf: "wf_state n s"
    and run: "tryPlace rnd (int n) (dirs ad) word wi m s = Some (s', b)"
  shows "\<forall>c ch. rd (grid s) c = Some (Some ch) \<longrightarrow> rd (grid s') c = Some (Some ch)"
proof (cases b)
  case False
  then have "s' = s\<lparr>calls := calls s + 3 * m\<rparr>" using tryPlace_cases[OF run] by simp
  then show ?thesis by simp
next
  case True
  then obtain k x y dx dy where dir: "(dx, dy) \<in> set (dirs ad)"
      and can: "canPlace (int n) (grid s) word x y dx dy wi = Some True"
      and place: "doPlace (s\<lparr>calls := k\<rparr>) word x y dx dy wi = Some s'"
    using tryPlace_cases[OF run] by auto
  let ?L = "line_cells x y dx dy (length word)"
  have wfg: "wf_matrix n (grid s)" using wf by (simp add: wf_state_def)
  have ok: "\<forall>i < length word. cell_ok n (grid s) word x y dx dy i"
    using can by (simp add: canPlace_wf[OF wfg])
  have inb: "\<forall>i < length word. inb (int n) (cellAt x y dx dy i)" using ok by (simp add: cell_ok_def)
  have wfk: "wf_state n (s\<lparr>calls := k\<rparr>)" using wf by (simp add: wf_state_def)
  from doPlace_effect[OF wfk inb dirs_nonzero[OF dir], of wi] place
  have letters: "\<forall>i < length word. rd (grid s') (cellAt x y dx dy i) = Some (Some (word ! i))"
    and frame: "\<forall>c. c \<notin> set ?L \<longrightarrow> rd (grid s') c = rd (grid s) c"
    by auto
  show ?thesis
  proof (intro allI impI)
    fix c ch assume a: "rd (grid s) c = Some (Some ch)"
    show "rd (grid s') c = Some (Some ch)"
    proof (cases "c \<in> set ?L")
      case True
      then obtain i where i: "i < length word" "c = cellAt x y dx dy i" by (auto simp: line_cells_set)
      then have "rd (grid s) c = Some (Some (word ! i))" using ok a by (auto simp: cell_ok_def)
      then show ?thesis using a letters i by simp
    next
      case False
      then show ?thesis using frame[rule_format, OF False] a by simp
    qed
  qed
qed

lemma fillBlanks_keep:
  "fillBlanks rnd g k cs = Some (g', k') \<Longrightarrow> rd g c = Some (Some ch) \<Longrightarrow> rd g' c = Some (Some ch)"
proof (induction cs arbitrary: g k)
  case Nil
  then show ?case by simp
next
  case (Cons d rest)
  obtain x y where d: "d = (x, y)" by (cases d)
  from Cons.prems(1) obtain v where v: "cell_read g x y = Some v"
    unfolding d by (auto split: option.splits)
  show ?case
  proof (cases v)
    case (Some ch0)
    then have "fillBlanks rnd g k rest = Some (g', k')" using Cons.prems(1) v d by simp
    from Cons.IH[OF this Cons.prems(2)] show ?thesis .
  next
    case None
    then obtain l g1 where g1: "cell_write g x y (Some l) = Some g1"
        and run: "fillBlanks rnd g1 (k + 1) rest = Some (g', k')"
      using Cons.prems(1) v d by (auto split: option.splits)
    have "c \<noteq> (x, y)" using Cons.prems(2) v None by (auto simp: rd_def)
    then have "rd g1 c = Some (Some ch)" using cell_write_rd[OF g1] Cons.prems(2) by simp
    from Cons.IH[OF run this] show ?thesis .
  qed
qed

lemma call_unfold:
  "words < length h \<Longrightarrow>
   generateWordsearch_call rnd h words sz ad =
     map_option (Pair (h @ [js_sort by_length_desc (h ! words)]))
       (placeSorted rnd (js_sort by_length_desc (h ! words)) sz ad)"
  by (simp add: generateWordsearch_call_def spread_copy_def sort_in_place_def nth_append
      split: option.splits)

subsection \<open>Every cell lettered\<close>

lemma generate_lettered:
  assumes "draws rnd" and "precondition words sz"
  shows "\<exists>res. generateWordsearch rnd words sz allowDiagonals = Some res \<and>
           wf_matrix sz (grid res) \<and>
           (\<forall>x y. 0 \<le> x \<and> x < int sz \<and> 0 \<le> y \<and> y < int sz \<longrightarrow>
              (\<exists>ch \<in> set alphabet. cell_read (grid res) x y = Some (Some ch)))"
proof -
  from generate_master[of rnd words sz allowDiagonals] assms(1)
  obtain res s flags where res: "generateWordsearch rnd words sz allowDiagonals = Some res"
    and inv: "gen_inv sz allowDiagonals s" and pl: "placements res = placements s"
    and wf: "wf_matrix sz (grid res)"
    and keep: "\<forall>c ch. rd (grid s) c = Some (Some ch) \<longrightarrow> rd (grid res) c = Some (Some ch)"
    and fill: "\<forall>c. inb (int sz) c \<longrightarrow> (\<exists>ch. rd (grid res) c = Some (Some ch) \<and>
                  (\<not> occupied (grid s) c \<longrightarrow> ch \<in> set alphabet))"
    and len: "length flags = length words"
    and plw: "map fst (placements res) = fst (outcome_split (js_sort by_length_desc words) flags)"
    unfolding draws_def by blast
  have "length flags = length (js_sort by_length_desc words)" using len by (simp add: js_sort_sort_key)
  from outcome_split_subseq[OF this] have "subseq (map fst (placements res)) (js_sort by_length_desc words)"
    using plw by simp
  then have "set (map fst (placements res)) \<subseteq> set (js_sort by_length_desc words)"
    by (rule subseq_subset)
  also have "\<dots> = set words" using mset_eq_setD[OF js_sort_mset] .
  finally have sub: "set (map fst (placements s)) \<subseteq> set words" using pl by simp
  have "\<exists>ch \<in> set alphabet. rd (grid res) c = Some (Some ch)" if inbc: "inb (int sz) c" for c
  proof (cases "occupied (grid s) c")
    case False
    then show ?thesis using fill inbc by blast
  next
    case True
    then have "c \<in> covered (placements s)" using inv unfolding gen_inv_def by blast
    then obtain p where p: "p \<in> set (placements s)" "c \<in> set (snd p)" by (auto simp: covered_def)
    then have sp: "spells (grid s) allowDiagonals p" using inv by (simp add: gen_inv_def)
    then obtain x y dx dy where L: "snd p = line_cells x y dx dy (length (fst p))"
      unfolding spells_def by blast
    then obtain i where i: "i < length (fst p)" "c = snd p ! i"
      using p(2) by (auto simp: line_cells_set line_cells_nth)
    then have "rd (grid s) c = Some (Some (fst p ! i))" using sp unfolding spells_def by blast
    then have r: "rd (grid res) c = Some (Some (fst p ! i))" using keep by blast
    have "fst p \<in> set words" using p(1) sub by auto
    then have "set (fst p) \<subseteq> set alphabet" using assms(2) by (simp add: precondition_def)
    then have "fst p ! i \<in> set alphabet" using i(1) by auto
    then show ?thesis using r by blast
  qed
  then have "\<And>x y. inb (int sz) (x, y) \<Longrightarrow>
              (\<exists>ch \<in> set alphabet. rd (grid res) (x, y) = Some (Some ch))"
    by blast
  then have "\<forall>x y. 0 \<le> x \<and> x < int sz \<and> 0 \<le> y \<and> y < int sz \<longrightarrow>
              (\<exists>ch \<in> set alphabet. cell_read (grid res) x y = Some (Some ch))"
    by (simp add: inb_def rd_def)
  then show ?thesis using res wf by blast
qed

subsection \<open>Mask cells, a first trial on an empty grid, the all-zero sequence\<close>

lemma scan_order_distinct: "distinct (scan_order n)"
proof -
  have "scan_order n = map (\<lambda>(y, x). (int x, int y)) (List.product [0..<n] [0..<n])"
    by (simp add: scan_order_def product_concat_map map_concat comp_def)
  moreover have "distinct (map (\<lambda>(y, x). (int x, int y)) (List.product [0..<n] [0..<n]))"
    by (rule distinct_map[THEN iffD2]) (auto simp: distinct_product inj_on_def)
  ultimately show ?thesis by simp
qed

lemma mask_count_card:
  assumes "wf_matrix n m"
  shows "mask_count m = card {c. rd m c = Some True}"
proof -
  have len: "length m = n" using assms by (simp add: wf_matrix_def)
  have "set (filter (\<lambda>c. rd m c = Some True) (scan_order n)) = {c. rd m c = Some True}"
    using rd_inb[OF assms] by (auto simp: scan_order_set)
  moreover have "distinct (filter (\<lambda>c. rd m c = Some True) (scan_order n))"
    using scan_order_distinct by simp
  ultimately have "card {c. rd m c = Some True} = length (filter (\<lambda>c. rd m c = Some True) (scan_order n))"
    using distinct_card by metis
  then show ?thesis by (simp add: mask_count_def len rd_def)
qed

lemma line_cells_distinct:
  assumes "(dx, dy) \<noteq> (0, 0)"
  shows "distinct (line_cells x y dx dy n)"
proof -
  have "inj_on (cellAt x y dx dy) (set [0..<n])"
    by (rule inj_onI) (rule cellAt_inj[OF assms])
  then show ?thesis by (simp add: line_cells_def distinct_map)
qed

lemma start_in_range:
  assumes r: "0 \<le> r" "r < 1" and d: "d = 1 \<or> d = -1 \<or> d = 0"
    and len: "1 \<le> len" "len \<le> n" and i: "0 \<le> i" "i < len"
  shows "0 \<le> randInt r ((if d = 1 then n - len else n - 1) - (if d = -1 then len - 1 else 0) + 1)
              + (if d = -1 then len - 1 else 0) + d * i \<and>
         randInt r ((if d = 1 then n - len else n - 1) - (if d = -1 then len - 1 else 0) + 1)
              + (if d = -1 then len - 1 else 0) + d * i < n"
proof -
  have "0 < n - len + 1" "0 < n" using len by simp_all
  from randInt_range[OF r this(1)] randInt_range[OF r this(2)] show ?thesis
    using d len i by auto
qed

lemma tryPlace_first_empty:
  assumes rng: "\<forall>k. 0 \<le> rnd k \<and> rnd k < 1" and wf: "wf_state n s"
    and empty: "\<forall>c. \<not> occupied (grid s) c"
    and len: "0 < length word" "length word \<le> n"
  shows "\<exists>s'. tryPlace rnd (int n) (dirs ad) word wi (Suc m) s = Some (s', True)"
proof -
  obtain dd where dd: "choice (rnd (calls s)) (dirs ad) = Some dd" "dd \<in> set (dirs ad)"
    using choice_Some[of "rnd (calls s)" "dirs ad"] rng dirs_nonempty by blast
  obtain dx dy where d: "choice (rnd (calls s)) (dirs ad) = Some (dx, dy)" and mem: "(dx, dy) \<in> set (dirs ad)"
    using dd by (cases dd) auto
  have dxy: "dx = 1 \<or> dx = -1 \<or> dx = 0" "dy = 1 \<or> dy = -1 \<or> dy = 0"
    using mem by (auto simp: dirs_def split: if_splits)
  define len where "len = int (length word)"
  define xMin where "xMin = (if dx = -1 then len - 1 else 0)"
  define xMax where "xMax = (if dx = 1 then int n - len else int n - 1)"
  define yMin where "yMin = (if dy = -1 then len - 1 else 0)"
  define yMax where "yMax = (if dy = 1 then int n - len else int n - 1)"
  define x where "x = randInt (rnd (calls s + 1)) (xMax - xMin + 1) + xMin"
  define y where "y = randInt (rnd (calls s + 2)) (yMax - yMin + 1) + yMin"
  define s1 where "s1 = s\<lparr>calls := calls s + 3\<rparr>"
  have unfold: "tryPlace rnd (int n) (dirs ad) word wi (Suc m) s =
     (case canPlace (int n) (grid s1) word x y dx dy wi of
        None \<Rightarrow> None
      | Some True \<Rightarrow> (case doPlace s1 word x y dx dy wi of None \<Rightarrow> None | Some s2 \<Rightarrow> Some (s2, True))
      | Some False \<Rightarrow> tryPlace rnd (int n) (dirs ad) word wi m s1)"
    by (simp only: tryPlace.simps d option.case prod.case Let_def
          len_def xMin_def xMax_def yMin_def yMax_def x_def y_def s1_def)
  have wf1: "wf_state n s1" using wf by (simp add: s1_def wf_state_def)
  then have wfg: "wf_matrix n (grid s1)" by (simp add: wf_state_def)
  have g1: "grid s1 = grid s" by (simp add: s1_def)
  have l1: "1 \<le> len" "len \<le> int n" using len unfolding len_def by linarith+
  have inb: "inb (int n) (cellAt x y dx dy i)" if "i < length word" for i
  proof -
    have i: "0 \<le> int i" "int i < len" using that by (simp_all add: len_def)
    have rx: "0 \<le> rnd (calls s + 1)" "rnd (calls s + 1) < 1" and ry: "0 \<le> rnd (calls s + 2)" "rnd (calls s + 2) < 1"
      using rng by simp_all
    show ?thesis
      using start_in_range[OF rx dxy(1) l1 i] start_in_range[OF ry dxy(2) l1 i]
      by (simp add: inb_def cellAt_def x_def y_def xMin_def xMax_def yMin_def yMax_def)
  qed
  have ok: "cell_ok n (grid s1) word x y dx dy i" if il: "i < length word" for i
  proof -
    obtain v where v: "rd (grid s) (cellAt x y dx dy i) = Some v"
      using inb[OF il] wfg g1 by (simp add: rd_wf)
    have "v = None"
      using empty[rule_format, of "cellAt x y dx dy i"] v by (cases v) (simp_all add: occupied_def)
    then show ?thesis using v inb[OF il] empty by (simp add: cell_ok_def g1)
  qed
  have can: "canPlace (int n) (grid s1) word x y dx dy wi = Some True"
    using ok by (simp add: canPlace_wf[OF wfg])
  have "\<forall>i < length word. inb (int n) (cellAt x y dx dy i)" using inb by blast
  from doPlace_effect[OF wf1 this dirs_nonzero[OF mem], of wi]
  obtain s2 where "doPlace s1 word x y dx dy wi = Some s2" by blast
  then show ?thesis unfolding unfold can by simp
qed

lemma randInt_zero: "randInt 0 n = 0"
  by (simp add: randInt_def)

lemma tryPlace_zero_fail:
  assumes d: "choice 0 ds = Some (dx, dy)"
    and can: "canPlace sz (grid s) word
                (if dx = -1 then int (length word) - 1 else 0)
                (if dy = -1 then int (length word) - 1 else 0) dx dy wi = Some False"
  shows "tryPlace rnd_zero sz ds word wi m s = Some (s\<lparr>calls := calls s + 3 * m\<rparr>, False)"
  using can
proof (induction m arbitrary: s)
  case 0
  then show ?case by simp
next
  case (Suc m)
  let ?s1 = "s\<lparr>calls := calls s + 3\<rparr>"
  have g: "grid ?s1 = grid s" by simp
  have "tryPlace rnd_zero sz ds word wi (Suc m) s = tryPlace rnd_zero sz ds word wi m ?s1"
    using d Suc.prems by (simp add: rnd_zero_def randInt_zero Let_def)
  also have "\<dots> = Some (?s1\<lparr>calls := calls ?s1 + 3 * m\<rparr>, False)"
    using Suc.IH[of ?s1] Suc.prems by simp
  finally show ?case by simp
qed

lemma tryPlace_first:
  assumes one: "tryPlace rnd sz ds word wi (Suc 0) s = Some (s', True)"
  shows "tryPlace rnd sz ds word wi (Suc m) s = Some (s', True)"
proof -
  from one obtain dx dy where d: "choice (rnd (calls s)) ds = Some (dx, dy)"
    by (auto split: option.splits)
  define len where "len = int (length word)"
  define xMin where "xMin = (if dx = -1 then len - 1 else 0)"
  define xMax where "xMax = (if dx = 1 then sz - len else sz - 1)"
  define yMin where "yMin = (if dy = -1 then len - 1 else 0)"
  define yMax where "yMax = (if dy = 1 then sz - len else sz - 1)"
  define x where "x = randInt (rnd (calls s + 1)) (xMax - xMin + 1) + xMin"
  define y where "y = randInt (rnd (calls s + 2)) (yMax - yMin + 1) + yMin"
  define s1 where "s1 = s\<lparr>calls := calls s + 3\<rparr>"
  have unfold: "tryPlace rnd sz ds word wi (Suc k) s =
     (case canPlace sz (grid s1) word x y dx dy wi of
        None \<Rightarrow> None
      | Some True \<Rightarrow> (case doPlace s1 word x y dx dy wi of None \<Rightarrow> None | Some s2 \<Rightarrow> Some (s2, True))
      | Some False \<Rightarrow> tryPlace rnd sz ds word wi k s1)" for k
    by (simp only: tryPlace.simps d option.case prod.case Let_def
          len_def xMin_def xMax_def yMin_def yMax_def x_def y_def s1_def)
  show ?thesis
  proof (cases "canPlace sz (grid s1) word x y dx dy wi")
    case None
    then show ?thesis using one unfolding unfold by simp
  next
    case (Some ok)
    then show ?thesis using one unfolding unfold by (cases ok) simp_all
  qed
qed

lemma tryPlace_trials:
  "tryPlace rnd sz ds word wi m s = Some (s', b) \<Longrightarrow>
   b = (\<exists>a < m. trial_succeeds rnd sz ds word wi s a)"
proof (induction m arbitrary: s)
  case 0
  then show ?case by simp
next
  case (Suc m)
  from Suc.prems obtain dx dy where d: "choice (rnd (calls s)) ds = Some (dx, dy)"
    by (auto split: option.splits)
  define len where "len = int (length word)"
  define xMin where "xMin = (if dx = -1 then len - 1 else 0)"
  define xMax where "xMax = (if dx = 1 then sz - len else sz - 1)"
  define yMin where "yMin = (if dy = -1 then len - 1 else 0)"
  define yMax where "yMax = (if dy = 1 then sz - len else sz - 1)"
  define x where "x = randInt (rnd (calls s + 1)) (xMax - xMin + 1) + xMin"
  define y where "y = randInt (rnd (calls s + 2)) (yMax - yMin + 1) + yMin"
  define s1 where "s1 = s\<lparr>calls := calls s + 3\<rparr>"
  have unfold: "tryPlace rnd sz ds word wi (Suc k) s =
     (case canPlace sz (grid s1) word x y dx dy wi of
        None \<Rightarrow> None
      | Some True \<Rightarrow> (case doPlace s1 word x y dx dy wi of None \<Rightarrow> None | Some s2 \<Rightarrow> Some (s2, True))
      | Some False \<Rightarrow> tryPlace rnd sz ds word wi k s1)" for k
    by (simp only: tryPlace.simps d option.case prod.case Let_def
          len_def xMin_def xMax_def yMin_def yMax_def x_def y_def s1_def)
  have zero: "trial_succeeds rnd sz ds word wi s 0 \<longleftrightarrow>
                map_option snd (tryPlace rnd sz ds word wi (Suc 0) s) = Some True"
    by (simp add: trial_succeeds_def)
  have shift: "trial_succeeds rnd sz ds word wi s1 a = trial_succeeds rnd sz ds word wi s (Suc a)" for a
    by (simp add: trial_succeeds_def s1_def add.assoc)
  have split: "(\<exists>a < Suc m. trial_succeeds rnd sz ds word wi s a) \<longleftrightarrow>
        trial_succeeds rnd sz ds word wi s 0 \<or> (\<exists>a < m. trial_succeeds rnd sz ds word wi s (Suc a))"
    by (metis less_Suc_eq_0_disj)
  show ?case
  proof (cases "canPlace sz (grid s1) word x y dx dy wi")
    case None
    then show ?thesis using Suc.prems unfolding unfold by simp
  next
    case (Some ok)
    show ?thesis
    proof (cases ok)
      case True
      then have "b" and "trial_succeeds rnd sz ds word wi s 0"
        using Suc.prems Some unfolding zero unfold by (auto split: option.splits)
      then show ?thesis using split by blast
    next
      case False
      then have rec: "tryPlace rnd sz ds word wi m s1 = Some (s', b)"
        using Suc.prems Some unfolding unfold by simp
      have "\<not> trial_succeeds rnd sz ds word wi s 0"
        using Some False unfolding zero unfold by simp
      then show ?thesis using Suc.IH[OF rec] split shift by simp
    qed
  qed
qed

lemma attempts_Suc: "attempts = Suc 1999"
  by (simp add: attempts_def)

lemma cat_first_trial:
  "tryPlace rnd_zero 10 (dirs False) ''CAT'' 0 (Suc 0) (init_state 10) = Some (cat_state, True)"
  by code_simp

lemma dog_blocked: "canPlace 10 (grid cat_state) ''DOG'' 0 0 1 0 (Suc 0) = Some False"
  by code_simp

lemma sorted_cat_dog: "js_sort by_length_desc [''CAT'', ''DOG''] = [''CAT'', ''DOG'']"
  by (simp add: js_sort_def by_length_desc_def)

lemma cat_state_inv: "gen_inv 10 False cat_state"
proof -
  have "tryPlace rnd_zero (int 10) (dirs False) ''CAT'' 0 (Suc 0) (init_state 10) = Some (cat_state, True)"
    using cat_first_trial by simp
  from tryPlace_result[OF init_inv this] show ?thesis by simp
qed

lemma cat_dog_zero_run:
  "placeWords rnd_zero 10 (dirs False) [''CAT'', ''DOG''] (init_state 10) [0, Suc 0] =
     Some (cat_state\<lparr>calls := 3 + 3 * attempts, failed := [''DOG'']\<rparr>)"
proof -
  have t1: "tryPlace rnd_zero 10 (dirs False) ''CAT'' 0 attempts (init_state 10) = Some (cat_state, True)"
    unfolding attempts_Suc by (rule tryPlace_first[OF cat_first_trial])
  have c: "choice 0 (dirs False) = Some (1, 0)" by (simp add: choice_def dirs_def randInt_zero)
  have t2: "tryPlace rnd_zero 10 (dirs False) ''DOG'' (Suc 0) attempts cat_state =
              Some (cat_state\<lparr>calls := calls cat_state + 3 * attempts\<rparr>, False)"
    by (rule tryPlace_zero_fail[OF c]) (simp add: dog_blocked)
  have "calls cat_state = 3" "failed cat_state = []" by (simp_all add: cat_state_def)
  then show ?thesis using t1 t2 by (simp add: Let_def)
qed

subsection \<open>The scenario with the words CAT and DOG\<close>

lemma placement_cells:
  assumes inv: "gen_inv n ad s" and p: "(w, cells) \<in> set (placements s)"
  shows "distinct cells \<and> length cells = length w \<and>
         (\<forall>i < length w. rd (grid s) (cells ! i) = Some (Some (w ! i)))"
proof -
  have "spells (grid s) ad (w, cells)" using inv p by (auto simp: gen_inv_def)
  then obtain x y dx dy where d: "(dx, dy) \<in> set (dirs ad)"
      and L: "cells = line_cells x y dx dy (length w)"
      and lt: "\<forall>i < length w. rd (grid s) (cells ! i) = Some (Some (w ! i))"
    unfolding spells_def by auto
  have "distinct cells" unfolding L by (rule line_cells_distinct[OF dirs_nonzero[OF d]])
  moreover have "length cells = length w" by (simp add: L line_cells_def)
  ultimately show ?thesis using lt by blast
qed

lemma disjoint_letters:
  assumes inv: "gen_inv n ad s"
    and p: "(w1, c1) \<in> set (placements s)" and q: "(w2, c2) \<in> set (placements s)"
    and dis: "set w1 \<inter> set w2 = {}"
  shows "set c1 \<inter> set c2 = {}"
proof (rule ccontr)
  assume "set c1 \<inter> set c2 \<noteq> {}"
  then obtain c where c: "c \<in> set c1" "c \<in> set c2" by blast
  note P = placement_cells[OF inv p] and Q = placement_cells[OF inv q]
  obtain i where i: "i < length w1" "c = c1 ! i" using c(1) P by (auto simp: in_set_conv_nth)
  obtain j where j: "j < length w2" "c = c2 ! j" using c(2) Q by (auto simp: in_set_conv_nth)
  have "rd (grid s) c = Some (Some (w1 ! i))" "rd (grid s) c = Some (Some (w2 ! j))"
    using P Q i j by auto
  then have "w1 ! i = w2 ! j" by simp
  moreover have "w1 ! i \<in> set w1" "w2 ! j \<in> set w2" using i j by simp_all
  ultimately show False using dis by auto
qed

lemma mask_count_covered:
  assumes inv: "gen_inv n ad s"
  shows "mask_count (mark s) = card (covered (placements s))"
proof -
  have wf: "wf_matrix n (mark s)" using inv by (simp add: gen_inv_def wf_state_def)
  have "{c. rd (mark s) c = Some True} = covered (placements s)"
    using inv unfolding gen_inv_def by blast
  then show ?thesis using mask_count_card[OF wf] by simp
qed

lemma cat_dog_outcomes:
  assumes rng: "\<forall>k. 0 \<le> rnd k \<and> rnd k < 1"
  shows "\<exists>res s1. generateWordsearch rnd [''CAT'', ''DOG''] 10 False = Some res \<and>
           tryPlace rnd 10 (dirs False) ''CAT'' 0 (Suc 0) (init_state 10) = Some (s1, True) \<and>
           (if \<exists>a < 2000. trial_succeeds rnd 10 (dirs False) ''DOG'' (Suc 0) s1 a
            then map fst (placements res) = [''CAT'', ''DOG''] \<and> failed res = [] \<and>
                 mask_count (mark res) = 6
            else map fst (placements res) = [''CAT''] \<and> failed res = [''DOG''] \<and>
                 mask_count (mark res) = 3)"
proof -
  let ?s0 = "init_state 10"
  have inv0: "gen_inv 10 False ?s0" by (rule init_inv)
  have pl0: "placements ?s0 = []" and fl0: "failed ?s0 = []" by (simp_all add: init_state_def)
  have empty0: "\<forall>c. \<not> occupied (grid ?s0) c"
    using inv0 pl0 unfolding gen_inv_def by (simp add: covered_def)
  have wf0: "wf_state 10 ?s0" using inv0 by (simp add: gen_inv_def)
  obtain s1 where one: "tryPlace rnd (int 10) (dirs False) ''CAT'' 0 (Suc 0) ?s0 = Some (s1, True)"
    using tryPlace_first_empty[OF rng wf0 empty0, of "''CAT''" False 0 0] by auto
  have t1: "tryPlace rnd (int 10) (dirs False) ''CAT'' 0 attempts ?s0 = Some (s1, True)"
    unfolding attempts_Suc by (rule tryPlace_first[OF one])
  from tryPlace_result[OF inv0 t1] obtain cells1 where
    inv1: "gen_inv 10 False s1" and fl1: "failed s1 = []" and pl1: "placements s1 = [(''CAT'', cells1)]"
    using pl0 fl0 by auto
  have wf1: "wf_state 10 s1" using inv1 by (simp add: gen_inv_def)
  obtain s2 b where t2: "tryPlace rnd (int 10) (dirs False) ''DOG'' (Suc 0) attempts s1 = Some (s2, b)"
    using tryPlace_total[OF rng wf1] by blast
  have b: "b = (\<exists>a < 2000. trial_succeeds rnd 10 (dirs False) ''DOG'' (Suc 0) s1 a)"
    using tryPlace_trials[OF t2] by (simp add: attempts_def)
  note r2 = tryPlace_result[OF inv1 t2]
  have inv2: "gen_inv 10 False s2" and fl2: "failed s2 = []" using r2 fl1 by simp_all
  define s3 where "s3 = (if \<not> b then s2\<lparr>failed := failed s2 @ [''DOG'']\<rparr> else s2)"
  have inv3: "gen_inv 10 False s3" using inv2 by (simp add: s3_def gen_inv_failed)
  have idx: "[0..<length [''CAT'', ''DOG'']] = [0, Suc 0]" by (simp add: upt_rec)
  have run: "placeWords rnd (int 10) (dirs False) [''CAT'', ''DOG''] ?s0 [0..<length [''CAT'', ''DOG'']] = Some s3"
    unfolding idx using t1 t2 by (simp add: Let_def s3_def)
  from fill_after[OF rng inv3] obtain g k where
    fb: "fillBlanks rnd (grid s3) (calls s3) (scan_order 10) = Some (g, k)" by blast
  let ?res = "\<lparr>grid = g, mark = mark s3, placements = placements s3, failed = failed s3\<rparr>"
  have res: "generateWordsearch rnd [''CAT'', ''DOG''] 10 False = Some ?res"
    unfolding generateWordsearch_sorted sorted_cat_dog placeSorted_def using run fb by simp
  have one': "tryPlace rnd 10 (dirs False) ''CAT'' 0 (Suc 0) (init_state 10) = Some (s1, True)"
    using one by simp
  have cnt: "mask_count (mark s3) = card (covered (placements s3))"
    by (rule mask_count_covered[OF inv3])
  have c1: "card (set cells1) = 3"
  proof -
    have "(''CAT'', cells1) \<in> set (placements s1)" using pl1 by simp
    from placement_cells[OF inv1 this] show ?thesis by (simp add: distinct_card)
  qed
  have out: "if b
      then map fst (placements ?res) = [''CAT'', ''DOG''] \<and> failed ?res = [] \<and>
           mask_count (mark ?res) = 6
      else map fst (placements ?res) = [''CAT''] \<and> failed ?res = [''DOG''] \<and>
           mask_count (mark ?res) = 3"
  proof (cases b)
    case False
    then have "s2 = s1\<lparr>calls := calls s1 + 3 * attempts\<rparr>" using r2 by simp
    then have "placements s3 = [(''CAT'', cells1)]" "failed s3 = [''DOG'']"
      using False pl1 fl1 by (simp_all add: s3_def)
    moreover from this have "mask_count (mark s3) = 3" using cnt c1 by (simp add: covered_def)
    ultimately show ?thesis using False by simp
  next
    case True
    then obtain cells2 where pl2: "placements s2 = [(''CAT'', cells1), (''DOG'', cells2)]"
      using r2 pl1 by auto
    have s3: "s3 = s2" using True by (simp add: s3_def)
    have m1: "(''CAT'', cells1) \<in> set (placements s2)" and m2: "(''DOG'', cells2) \<in> set (placements s2)"
      using pl2 by simp_all
    have c2: "card (set cells2) = 3"
      using placement_cells[OF inv2 m2] by (simp add: distinct_card)
    have dis: "set cells1 \<inter> set cells2 = {}"
      by (rule disjoint_letters[OF inv2 m1 m2]) simp
    have "card (covered (placements s2)) = card (set cells1 \<union> set cells2)"
      by (simp add: pl2 covered_def)
    also have "\<dots> = 6" using card_Un_disjoint[OF _ _ dis] c1 c2 by simp
    finally have "mask_count (mark s3) = 6" using cnt s3 by simp
    then show ?thesis using True pl2 fl2 s3 by simp
  qed
  have fin: "if \<exists>a < 2000. trial_succeeds rnd 10 (dirs False) ''DOG'' (Suc 0) s1 a
      then map fst (placements ?res) = [''CAT'', ''DOG''] \<and> failed ?res = [] \<and>
           mask_count (mark ?res) = 6
      else map fst (placements ?res) = [''CAT''] \<and> failed ?res = [''DOG''] \<and>
           mask_count (mark ?res) = 3"
    using out unfolding b .
  show ?thesis
    by (intro exI[of _ ?res] exI[of _ s1] conjI res one' fin)
qed

lemma zero_run_failed:
  "map_option failed (generateWordsearch rnd_zero [''CAT'', ''DOG''] 10 False) = Some [''DOG'']"
proof -
  let ?s = "cat_state\<lparr>calls := 3 + 3 * attempts, failed := [''DOG'']\<rparr>"
  have inv: "gen_inv 10 False ?s"
    using cat_state_inv by (simp add: gen_inv_calls gen_inv_failed)
  have rng: "\<forall>k. 0 \<le> rnd_zero k \<and> rnd_zero k < 1" using draws_zero by (simp add: draws_def)
  from fill_after[OF rng inv] obtain g k where
    fb: "fillBlanks rnd_zero (grid ?s) (calls ?s) (scan_order 10) = Some (g, k)" by blast
  have idx: "[0..<length [''CAT'', ''DOG'']] = [0, Suc 0]" by (simp add: upt_rec)
  have "placeSorted rnd_zero [''CAT'', ''DOG''] 10 False =
          Some \<lparr>grid = g, mark = mark ?s, placements = placements ?s, failed = failed ?s\<rparr>"
    unfolding placeSorted_def idx using cat_dog_zero_run fb by simp
  then show ?thesis by (simp add: generateWordsearch_sorted sorted_cat_dog)
qed

subsection \<open>Concrete runs\<close>

lemma ca_overlap_trial:
  "tryPlace rnd_zero 10 (dirs False) ''CA'' (Suc 0) (Suc 0) cat_state = Some (ca_state, True)"
  by code_simp

lemma cat_fill: "fillBlanks rnd_zero (grid cat_state) 3 (scan_order 10) = Some (cat_filled, 100)"
  by code_simp

lemma cat_state_wf: "wf_state 10 cat_state"
  using cat_state_inv by (simp add: gen_inv_def)

lemma cat_state_corner: "rd (grid cat_state) (0, 0) = Some (Some CHR ''C'')"
  by code_simp

lemma dog_all_trials_fail:
  "tryPlace rnd_zero 10 (dirs False) ''DOG'' (Suc 0) attempts cat_state =
     Some (cat_state\<lparr>calls := calls cat_state + 3 * attempts\<rparr>, False)"
proof -
  have c: "choice 0 (dirs False) = Some (1, 0)" by (simp add: choice_def dirs_def randInt_zero)
  show ?thesis by (rule tryPlace_zero_fail[OF c]) (simp add: dog_blocked)
qed

lemma empty_grid_wf: "wf_matrix 5 (new_matrix 5 None)"
  by (rule new_matrix_wf)

lemma right_in_dirs: "(1, 0) \<in> set (dirs False)"
  by (simp add: dirs_def)

lemma run_apart: "generateWordsearch rnd_c2 [''CAT'', ''DOG''] 10 False = Some apart_result"
  by code_simp

lemma run_overlay: "generateWordsearch rnd_c2 [''CA'', ''CATS'', ''TS''] 4 False = Some overlay_result"
  by code_simp

lemma call_overlay:
  "generateWordsearch_call rnd_c2 [[''CA'', ''CATS'', ''TS'']] 0 4 False =
     Some ([[''CA'', ''CATS'', ''TS''], [''CATS'', ''CA'', ''TS'']], overlay_result)"
  by code_simp

lemma precondition_overlay: "precondition [''CA'', ''CATS'', ''TS''] 4"
  by (simp add: precondition_def alphabet_def)




lemma cat_first_trial_c2:
  "tryPlace rnd_c2 10 (dirs False) ''CAT'' 0 (Suc 0) (init_state 10) = Some (cat_state, True)"
  by code_simp

lemma dog_second_trial: "trial_succeeds rnd_c2 10 (dirs False) ''DOG'' (Suc 0) cat_state 1"
  by code_simp


section \<open>The claims\<close>

text \<open>
  In every theorem \<open>draws rnd\<close> says that each draw of the random sequence lies in
  \<open>[0, 1)\<close>, as \<^verbatim>\<open>Math.random()\<close> promises, and \<open>precondition words sz\<close> is the
  input contract of the engine. A theorem of the form \<open>\<exists>res. generateWordsearch \<dots> = Some res \<and> \<dots>\<close>
  also says that the call returns: no access outside an array, nothing thrown.
\<close>

subsection \<open>C1: placed and failed words partition the input\<close>

text \<open>
  Claim C1. For every input satisfying the precondition, the result partitions the input
  words: the words of \<open>placements\<close> together with \<open>failed\<close> are the input words, each
  exactly once (equal as multisets, and without duplicates); no word is in both lists and
  none is missing.
\<close>

theorem partition_placements_failed:
  assumes "draws rnd" and "precondition words sz"
  shows "\<exists>res. generateWordsearch rnd words sz allowDiagonals = Some res \<and>
           mset (map fst (placements res)) + mset (failed res) = mset words \<and>
           distinct (map fst (placements res) @ failed res) \<and>
           set (map fst (placements res)) \<union> set (failed res) = set words \<and>
           set (map fst (placements res)) \<inter> set (failed res) = {}"
proof -
  from generate_master[of rnd words sz allowDiagonals] assms(1)
  obtain res flags where res: "generateWordsearch rnd words sz allowDiagonals = Some res"
    and len: "length flags = length words"
    and pl: "map fst (placements res) = fst (outcome_split (js_sort by_length_desc words) flags)"
    and fl: "failed res = snd (outcome_split (js_sort by_length_desc words) flags)"
    unfolding draws_def by blast
  have "length flags = length (js_sort by_length_desc words)"
    using len by (simp add: js_sort_sort_key)
  from outcome_split_mset[OF this]
  have m: "mset (map fst (placements res) @ failed res) = mset words"
    using pl fl by (simp add: js_sort_mset)
  have d: "distinct (map fst (placements res) @ failed res)"
    using mset_eq_imp_distinct_iff[OF m] assms(2) by (simp add: precondition_def)
  have s: "set (map fst (placements res) @ failed res) = set words"
    using mset_eq_setD[OF m] .
  show ?thesis using res m d s by (intro exI[of _ res]) auto
qed

theorem partition_placements_failed_witness:
  "draws rnd_c2 \<and> precondition [''CA'', ''CATS'', ''TS''] 4 \<and>
   generateWordsearch rnd_c2 [''CA'', ''CATS'', ''TS''] 4 False = Some overlay_result \<and>
   mset (map fst (placements overlay_result)) + mset (failed overlay_result) =
     mset [''CA'', ''CATS'', ''TS''] \<and>
   distinct (map fst (placements overlay_result) @ failed overlay_result) \<and>
   set (map fst (placements overlay_result)) \<union> set (failed overlay_result) =
     set [''CA'', ''CATS'', ''TS''] \<and>
   set (map fst (placements overlay_result)) \<inter> set (failed overlay_result) = {}"
proof -
  from partition_placements_failed[OF draws_c2 precondition_overlay, of False]
  obtain res where r: "generateWordsearch rnd_c2 [''CA'', ''CATS'', ''TS''] 4 False = Some res \<and>
           mset (map fst (placements res)) + mset (failed res) = mset [''CA'', ''CATS'', ''TS''] \<and>
           distinct (map fst (placements res) @ failed res) \<and>
           set (map fst (placements res)) \<union> set (failed res) = set [''CA'', ''CATS'', ''TS''] \<and>
           set (map fst (placements res)) \<inter> set (failed res) = {}" ..
  have e: "res = overlay_result" using r[THEN conjunct1] run_overlay by simp
  show ?thesis by (rule conjI[OF draws_c2 conjI[OF precondition_overlay r[unfolded e]]])
qed

subsection \<open>C2: spacing between words\<close>




subsection \<open>C3: overlaps agree on the letter\<close>

text \<open>
  Claim C3. In every result, whenever the coordinate lists of two entries of \<open>placements\<close>
  share a cell, the two words have the same letter there. More generally no run of trials
  for a word, from any well-formed state, changes the letter of an occupied cell: a letter
  is written over an occupied cell only when it is the letter already there.
\<close>

theorem overlap_letters_agree:
  assumes "draws rnd"
  shows "(\<exists>res. generateWordsearch rnd words sz allowDiagonals = Some res \<and>
            (\<forall>p \<in> set (placements res). \<forall>q \<in> set (placements res).
               \<forall>i < length (fst p). \<forall>j < length (fst q).
                 snd p ! i = snd q ! j \<longrightarrow> fst p ! i = fst q ! j)) \<and>
         (\<forall>s word wi m s' b.
            wf_state sz s \<and>
            tryPlace rnd (int sz) (dirs allowDiagonals) word wi m s = Some (s', b) \<longrightarrow>
            (\<forall>c ch. rd (grid s) c = Some (Some ch) \<longrightarrow> rd (grid s') c = Some (Some ch)))"
proof -
  from generate_master[of rnd words sz allowDiagonals] assms
  obtain res s where res: "generateWordsearch rnd words sz allowDiagonals = Some res"
    and inv: "gen_inv sz allowDiagonals s" and pl: "placements res = placements s"
    unfolding draws_def by blast
  have "fst p ! i = fst q ! j"
    if "p \<in> set (placements res)" "q \<in> set (placements res)"
      "i < length (fst p)" "j < length (fst q)" "snd p ! i = snd q ! j" for p q i j
  proof -
    have "spells (grid s) allowDiagonals p" "spells (grid s) allowDiagonals q"
      using inv that pl by (simp_all add: gen_inv_def)
    then have "rd (grid s) (snd p ! i) = Some (Some (fst p ! i))"
      "rd (grid s) (snd q ! j) = Some (Some (fst q ! j))"
      using that unfolding spells_def by blast+
    then show ?thesis using that(5) by simp
  qed
  then have A: "\<exists>res. generateWordsearch rnd words sz allowDiagonals = Some res \<and>
            (\<forall>p \<in> set (placements res). \<forall>q \<in> set (placements res).
               \<forall>i < length (fst p). \<forall>j < length (fst q).
                 snd p ! i = snd q ! j \<longrightarrow> fst p ! i = fst q ! j)"
    using res by blast
  show ?thesis using A tryPlace_keep by blast
qed

theorem overlap_letters_agree_witness:
  "draws rnd_c2 \<and>
   generateWordsearch rnd_c2 [''CA'', ''CATS'', ''TS''] 4 False = Some overlay_result \<and>
   (''CATS'', [(0, 0), (1, 0), (2, 0), (3, 0)]) \<in> set (placements overlay_result) \<and>
   (''TS'', [(2, 0), (3, 0)]) \<in> set (placements overlay_result) \<and>
   [(0, 0), (1, 0), (2, 0), (3, 0)] ! 2 = [(2, 0), (3 :: int, 0 :: int)] ! 0 \<and>
   ''CATS'' ! 2 = ''TS'' ! 0 \<and>
   draws rnd_zero \<and> wf_state 10 cat_state \<and>
   tryPlace rnd_zero 10 (dirs False) ''CA'' (Suc 0) (Suc 0) cat_state = Some (ca_state, True) \<and>
   rd (grid cat_state) (0, 0) = Some (Some CHR ''C'') \<and>
   rd (grid ca_state) (0, 0) = Some (Some CHR ''C'')"
proof -
  from overlap_letters_agree[OF draws_c2, of "[''CA'', ''CATS'', ''TS'']" 4 False, THEN conjunct1]
  obtain res where r: "generateWordsearch rnd_c2 [''CA'', ''CATS'', ''TS''] 4 False = Some res \<and>
            (\<forall>p \<in> set (placements res). \<forall>q \<in> set (placements res).
               \<forall>i < length (fst p). \<forall>j < length (fst q).
                 snd p ! i = snd q ! j \<longrightarrow> fst p ! i = fst q ! j)" ..
  have e: "res = overlay_result" using r[THEN conjunct1] run_overlay by simp
  have A: "\<forall>p \<in> set (placements overlay_result). \<forall>q \<in> set (placements overlay_result).
               \<forall>i < length (fst p). \<forall>j < length (fst q).
                 snd p ! i = snd q ! j \<longrightarrow> fst p ! i = fst q ! j"
    using r[unfolded e] by (rule conjunct2)
  have m1: "(''CATS'', [(0, 0), (1, 0), (2, 0), (3, 0)]) \<in> set (placements overlay_result)"
    and m2: "(''TS'', [(2, 0), (3, 0)]) \<in> set (placements overlay_result)"
    by (simp_all add: overlay_result_def)
  have e: "[(0, 0), (1, 0), (2, 0), (3, 0)] ! 2 = [(2, 0), (3 :: int, 0 :: int)] ! 0" by simp
  have l: "''CATS'' ! 2 = ''TS'' ! 0"
    using A[rule_format, OF m1 m2, of 2 0] e by simp
  note T = overlap_letters_agree[OF draws_zero, of "[''CAT'', ''DOG'']" 10 False]
  have t: "tryPlace rnd_zero (int 10) (dirs False) ''CA'' (Suc 0) (Suc 0) cat_state = Some (ca_state, True)"
    using ca_overlap_trial by simp
  have k: "rd (grid ca_state) (0, 0) = Some (Some CHR ''C'')"
    using T[THEN conjunct2, rule_format, of cat_state "''CA''" "Suc 0" "Suc 0" ca_state True
        "(0, 0)" "CHR ''C''"] cat_state_wf t cat_state_corner by blast
  show ?thesis
    using draws_c2 run_overlay m1 m2 e l draws_zero cat_state_wf ca_overlap_trial
      cat_state_corner k by (intro conjI)
qed

subsection \<open>C4: every cell holds a letter\<close>



subsection \<open>C5: the mask marks exactly the placed cells\<close>

text \<open>
  Claim C5. In every result and for every cell \<open>(x, y)\<close>, the solution mask is true at
  \<open>(x, y)\<close> if and only if \<open>(x, y)\<close> is in the coordinate list of some entry of
  \<open>placements\<close>.
\<close>

theorem mask_iff_covered:
  assumes "draws rnd"
  shows "\<exists>res. generateWordsearch rnd words sz allowDiagonals = Some res \<and>
           wf_matrix sz (mark res) \<and>
           (\<forall>x y. cell_read (mark res) x y = Some True \<longleftrightarrow>
                  (\<exists>p \<in> set (placements res). (x, y) \<in> set (snd p)))"
proof -
  from generate_master[of rnd words sz allowDiagonals] assms
  obtain res s where res: "generateWordsearch rnd words sz allowDiagonals = Some res"
    and inv: "gen_inv sz allowDiagonals s" and pl: "placements res = placements s"
    and mk: "mark res = mark s"
    unfolding draws_def by blast
  have "wf_matrix sz (mark res)" using inv mk by (simp add: gen_inv_def wf_state_def)
  moreover have "\<forall>x y. cell_read (mark res) x y = Some True \<longleftrightarrow>
                  (\<exists>p \<in> set (placements res). (x, y) \<in> set (snd p))"
    using inv mk pl unfolding gen_inv_def by (simp add: covered_def rd_def)
  ultimately show ?thesis using res by blast
qed

theorem mask_iff_covered_witness:
  "draws rnd_c2 \<and>
   generateWordsearch rnd_c2 [''CAT'', ''DOG''] 10 False = Some apart_result \<and>
   wf_matrix 10 (mark apart_result) \<and>
   (cell_read (mark apart_result) 6 0 = Some True) =
     (\<exists>p \<in> set (placements apart_result). (6, 0) \<in> set (snd p)) \<and>
   (cell_read (mark apart_result) 3 0 = Some True) =
     (\<exists>p \<in> set (placements apart_result). (3, 0) \<in> set (snd p))"
proof -
  from mask_iff_covered[OF draws_c2, of "[''CAT'', ''DOG'']" 10 False]
  obtain res where r: "generateWordsearch rnd_c2 [''CAT'', ''DOG''] 10 False = Some res \<and>
           wf_matrix 10 (mark res) \<and>
           (\<forall>x y. cell_read (mark res) x y = Some True \<longleftrightarrow>
                  (\<exists>p \<in> set (placements res). (x, y) \<in> set (snd p)))" ..
  have e: "res = apart_result" using r[THEN conjunct1] run_apart by simp
  have wf: "wf_matrix 10 (mark apart_result)"
    and all: "\<forall>x y. cell_read (mark apart_result) x y = Some True \<longleftrightarrow>
                  (\<exists>p \<in> set (placements apart_result). (x, y) \<in> set (snd p))"
    using r[unfolded e] by (rule conjunct2[THEN conjunct1], rule conjunct2[THEN conjunct2])
  show ?thesis
    using draws_c2 run_apart wf all[rule_format, of 6 0] all[rule_format, of 3 0]
    by (intro conjI)
qed

subsection \<open>C6: longest first, stable on ties\<close>

text \<open>
  Claim C6. The words are attempted in the order of a stable sort of the input by
  descending length: the sorted copy is a permutation of the input with non-increasing
  lengths that keeps the input order among words of one length, and the outcome of the
  loop splits that list, in its order, into the placed and the failed words
  (\<open>outcome_split\<close>). So in \<open>placements\<close> and in \<open>failed\<close> the lengths are non-increasing
  and words of equal length keep their relative input order.
\<close>

theorem longest_first_stable_order:
  assumes "draws rnd"
  shows "\<exists>res flags. generateWordsearch rnd words sz allowDiagonals = Some res \<and>
           longest_first (js_sort by_length_desc words) \<and>
           same_length_order (js_sort by_length_desc words) words \<and>
           mset (js_sort by_length_desc words) = mset words \<and>
           length flags = length words \<and>
           (map fst (placements res), failed res) = outcome_split (js_sort by_length_desc words) flags \<and>
           longest_first (map fst (placements res)) \<and> longest_first (failed res) \<and>
           same_length_order (map fst (placements res)) words \<and>
           same_length_order (failed res) words"
proof -
  let ?srt = "js_sort by_length_desc words"
  from generate_master[of rnd words sz allowDiagonals] assms(1)
  obtain res flags where res: "generateWordsearch rnd words sz allowDiagonals = Some res"
    and len: "length flags = length words"
    and pl: "map fst (placements res) = fst (outcome_split ?srt flags)"
    and fl: "failed res = snd (outcome_split ?srt flags)"
    unfolding draws_def by blast
  have "length flags = length ?srt" using len by (simp add: js_sort_sort_key)
  from outcome_split_subseq[OF this]
  have sp: "subseq (map fst (placements res)) ?srt" and sf: "subseq (failed res) ?srt"
    using pl fl by simp_all
  have lp: "longest_first (map fst (placements res))" and lf: "longest_first (failed res)"
    using subseq_sorted_wrt[OF sp] subseq_sorted_wrt[OF sf] js_sort_longest_first[of words]
    unfolding longest_first_def by blast+
  have st: "same_length_order ?srt words"
    by (simp add: same_length_order_def js_sort_stable)
  have op: "same_length_order (map fst (placements res)) words"
    unfolding same_length_order_def using subseq_filter[OF sp] js_sort_stable by metis
  have "of": "same_length_order (failed res) words"
    unfolding same_length_order_def using subseq_filter[OF sf] js_sort_stable by metis
  show ?thesis
    using res js_sort_longest_first[of words] st js_sort_mset[of words] len pl fl lp lf op "of"
    by (intro exI[of _ res] exI[of _ flags]) simp
qed

theorem longest_first_stable_order_witness:
  "draws rnd_c2 \<and>
   generateWordsearch rnd_c2 [''CA'', ''CATS'', ''TS''] 4 False = Some overlay_result \<and>
   js_sort by_length_desc [''CA'', ''CATS'', ''TS''] = [''CATS'', ''CA'', ''TS''] \<and>
   map fst (placements overlay_result) = [''CATS'', ''CA'', ''TS''] \<and>
   longest_first (js_sort by_length_desc [''CA'', ''CATS'', ''TS'']) \<and>
   same_length_order (js_sort by_length_desc [''CA'', ''CATS'', ''TS'']) [''CA'', ''CATS'', ''TS''] \<and>
   longest_first (map fst (placements overlay_result)) \<and>
   longest_first (failed overlay_result) \<and>
   same_length_order (map fst (placements overlay_result)) [''CA'', ''CATS'', ''TS''] \<and>
   same_length_order (failed overlay_result) [''CA'', ''CATS'', ''TS'']"
proof -
  from longest_first_stable_order[OF draws_c2, of "[''CA'', ''CATS'', ''TS'']" 4 False]
  obtain res flags where
    r: "generateWordsearch rnd_c2 [''CA'', ''CATS'', ''TS''] 4 False = Some res"
    and a: "longest_first (js_sort by_length_desc [''CA'', ''CATS'', ''TS''])"
    and b: "same_length_order (js_sort by_length_desc [''CA'', ''CATS'', ''TS'']) [''CA'', ''CATS'', ''TS'']"
    and c: "longest_first (map fst (placements res))" "longest_first (failed res)"
    and d: "same_length_order (map fst (placements res)) [''CA'', ''CATS'', ''TS'']"
      "same_length_order (failed res) [''CA'', ''CATS'', ''TS'']"
    by (elim exE conjE)
  have e: "res = overlay_result" using r run_overlay by simp
  have s: "js_sort by_length_desc [''CA'', ''CATS'', ''TS''] = [''CATS'', ''CA'', ''TS'']"
    by (simp add: js_sort_def by_length_desc_def)
  have p: "map fst (placements overlay_result) = [''CATS'', ''CA'', ''TS'']"
    by (simp add: overlay_result_def)
  show ?thesis
    using draws_c2 run_overlay s p a b c[unfolded e] d[unfolded e] by (intro conjI)
qed

subsection \<open>C7: a word longer than the grid\<close>

text \<open>
  Claim C7. When a word of the input is strictly longer than \<open>sz\<close>, then for every random
  sequence the call still returns (no access outside the grid, nothing thrown), the
  feasibility check answers false for that word at every start, in every direction and on
  every grid of that dimension, and the word is reported in \<open>failed\<close>.
\<close>

theorem too_long_word_fails:
  assumes "draws rnd" and "w \<in> set words" and "sz < length w"
  shows "(\<exists>res. generateWordsearch rnd words sz allowDiagonals = Some res \<and>
            w \<in> set (failed res) \<and> w \<notin> set (map fst (placements res))) \<and>
         (\<forall>g x y dx dy wi. wf_matrix sz g \<and> (dx, dy) \<in> set (dirs allowDiagonals) \<longrightarrow>
            canPlace (int sz) g w x y dx dy wi = Some False)"
proof -
  from generate_master[of rnd words sz allowDiagonals] assms(1)
  obtain res s flags where res: "generateWordsearch rnd words sz allowDiagonals = Some res"
    and inv: "gen_inv sz allowDiagonals s" and pl: "placements res = placements s"
    and len: "length flags = length words"
    and plw: "map fst (placements res) = fst (outcome_split (js_sort by_length_desc words) flags)"
    and fl: "failed res = snd (outcome_split (js_sort by_length_desc words) flags)"
    unfolding draws_def by blast
  have "length flags = length (js_sort by_length_desc words)" using len by (simp add: js_sort_sort_key)
  from outcome_split_mset[OF this]
  have m: "mset (map fst (placements res) @ failed res) = mset words"
    using plw fl by (simp add: js_sort_mset)
  have notp: "w \<notin> set (map fst (placements res))"
    using spells_length[OF inv] assms(3) pl by force
  have "w \<in> set (map fst (placements res) @ failed res)" using mset_eq_setD[OF m] assms(2) by simp
  then have "w \<in> set (failed res)" using notp by simp
  then show ?thesis using res notp canPlace_too_long[OF _ _ assms(3)] by blast
qed

theorem too_long_word_fails_witness:
  "draws rnd_zero \<and> ''AAAAAAAAAA'' \<in> set [''AAAAAAAAAA''] \<and> 5 < length ''AAAAAAAAAA'' \<and>
   (\<exists>res. generateWordsearch rnd_zero [''AAAAAAAAAA''] 5 False = Some res \<and>
            ''AAAAAAAAAA'' \<in> set (failed res) \<and> ''AAAAAAAAAA'' \<notin> set (map fst (placements res))) \<and>
   wf_matrix 5 (new_matrix 5 None) \<and> (1, 0) \<in> set (dirs False) \<and>
   canPlace 5 (new_matrix 5 None) ''AAAAAAAAAA'' 0 0 1 0 0 = Some False"
proof -
  have a: "''AAAAAAAAAA'' \<in> set [''AAAAAAAAAA'']" and b: "5 < length ''AAAAAAAAAA''" by simp_all
  note T = too_long_word_fails[OF draws_zero a b, of False]
  have "canPlace (int 5) (new_matrix 5 None) ''AAAAAAAAAA'' 0 0 1 0 0 = Some False"
    using T[THEN conjunct2, rule_format, of "new_matrix 5 None" 1 0 0 0 0]
      empty_grid_wf right_in_dirs by blast
  then have "canPlace 5 (new_matrix 5 None) ''AAAAAAAAAA'' 0 0 1 0 0 = Some False" by simp
  then show ?thesis
    using T[THEN conjunct1] draws_zero a b empty_grid_wf right_in_dirs by (intro conjI)
qed

subsection \<open>C8: the scenario CAT, DOG on a 10 by 10 grid\<close>

text \<open>
  Claim C8 as it is stated, for every random sequence, fails: the trials are random and
  bounded, so a word that fits may still fail. When every draw is \<open>0\<close>, \<^verbatim>\<open>CAT\<close> takes
  \<open>(0,0)\<dots>(2,0)\<close> and each of the 2000 trials of \<^verbatim>\<open>DOG\<close> starts at \<open>(0,0)\<close> going right, on
  the \<^verbatim>\<open>C\<close>: \<^verbatim>\<open>DOG\<close> is reported in \<open>failed\<close>.
\<close>

theorem cat_dog_counterexample:
  "draws rnd_zero \<and>
   map_option failed (generateWordsearch rnd_zero [''CAT'', ''DOG''] 10 False) = Some [''DOG'']"
  using draws_zero zero_run_failed by (rule conjI)

text \<open>
  Claim C8, amended. For words \<^verbatim>\<open>CAT\<close>, \<^verbatim>\<open>DOG\<close>, size 10, no diagonals and every random
  sequence, the call returns a fully lettered grid in which \<^verbatim>\<open>CAT\<close> is placed, by its
  first trial. When at least one of the 2000 trials of \<^verbatim>\<open>DOG\<close> is feasible, \<^verbatim>\<open>DOG\<close> is
  placed too, \<open>failed\<close> is empty and the mask is true on exactly 6 cells; when all 2000
  trials of \<^verbatim>\<open>DOG\<close> are infeasible, \<open>failed\<close> is \<^verbatim>\<open>[DOG]\<close> and the mask is true on exactly 3
  cells. Here \<open>s1\<close> is the state that the first trial of \<^verbatim>\<open>CAT\<close> leaves, in which the trials
  of \<^verbatim>\<open>DOG\<close> begin.
\<close>

theorem cat_dog_scenario:
  assumes "draws rnd"
  shows "\<exists>res s1. generateWordsearch rnd [''CAT'', ''DOG''] 10 False = Some res \<and>
           tryPlace rnd 10 (dirs False) ''CAT'' 0 (Suc 0) (init_state 10) = Some (s1, True) \<and>
           (\<forall>x y. 0 \<le> x \<and> x < 10 \<and> 0 \<le> y \<and> y < 10 \<longrightarrow>
              (\<exists>ch \<in> set alphabet. cell_read (grid res) x y = Some (Some ch))) \<and>
           (if \<exists>a < 2000. trial_succeeds rnd 10 (dirs False) ''DOG'' (Suc 0) s1 a
            then map fst (placements res) = [''CAT'', ''DOG''] \<and> failed res = [] \<and>
                 mask_count (mark res) = 6
            else map fst (placements res) = [''CAT''] \<and> failed res = [''DOG''] \<and>
                 mask_count (mark res) = 3)"
proof -
  have rng: "\<forall>k. 0 \<le> rnd k \<and> rnd k < 1" using assms by (simp add: draws_def)
  from cat_dog_outcomes[OF rng] obtain res s1 where
    res: "generateWordsearch rnd [''CAT'', ''DOG''] 10 False = Some res"
    and one: "tryPlace rnd 10 (dirs False) ''CAT'' 0 (Suc 0) (init_state 10) = Some (s1, True)"
    and out: "if \<exists>a < 2000. trial_succeeds rnd 10 (dirs False) ''DOG'' (Suc 0) s1 a
            then map fst (placements res) = [''CAT'', ''DOG''] \<and> failed res = [] \<and>
                 mask_count (mark res) = 6
            else map fst (placements res) = [''CAT''] \<and> failed res = [''DOG''] \<and>
                 mask_count (mark res) = 3"
    by (elim exE conjE)
  from generate_lettered[OF assms precondition_cat_dog, of False] res
  have all: "\<forall>x y. 0 \<le> x \<and> x < 10 \<and> 0 \<le> y \<and> y < 10 \<longrightarrow>
              (\<exists>ch \<in> set alphabet. cell_read (grid res) x y = Some (Some ch))"
    by simp
  show ?thesis by (intro exI[of _ res] exI[of _ s1] conjI res one all out)
qed

theorem cat_dog_scenario_witness:
  "draws rnd_c2 \<and>
   generateWordsearch rnd_c2 [''CAT'', ''DOG''] 10 False = Some apart_result \<and>
   tryPlace rnd_c2 10 (dirs False) ''CAT'' 0 (Suc 0) (init_state 10) = Some (cat_state, True) \<and>
   trial_succeeds rnd_c2 10 (dirs False) ''DOG'' (Suc 0) cat_state 1 \<and>
   (\<exists>ch \<in> set alphabet. cell_read (grid apart_result) 9 9 = Some (Some ch)) \<and>
   map fst (placements apart_result) = [''CAT'', ''DOG''] \<and> failed apart_result = [] \<and>
   mask_count (mark apart_result) = 6 \<and>
   draws rnd_zero \<and>
   tryPlace rnd_zero 10 (dirs False) ''CAT'' 0 (Suc 0) (init_state 10) = Some (cat_state, True) \<and>
   map_option failed (generateWordsearch rnd_zero [''CAT'', ''DOG''] 10 False) = Some [''DOG''] \<and>
   \<not> trial_succeeds rnd_zero 10 (dirs False) ''DOG'' (Suc 0) cat_state 1999"
proof -
  from cat_dog_scenario[OF draws_c2]
  obtain res s1 where
    r: "generateWordsearch rnd_c2 [''CAT'', ''DOG''] 10 False = Some res"
    and one: "tryPlace rnd_c2 10 (dirs False) ''CAT'' 0 (Suc 0) (init_state 10) = Some (s1, True)"
    and all: "\<forall>x y. 0 \<le> x \<and> x < 10 \<and> 0 \<le> y \<and> y < 10 \<longrightarrow>
              (\<exists>ch \<in> set alphabet. cell_read (grid res) x y = Some (Some ch))"
    and out: "if \<exists>a < 2000. trial_succeeds rnd_c2 10 (dirs False) ''DOG'' (Suc 0) s1 a
            then map fst (placements res) = [''CAT'', ''DOG''] \<and> failed res = [] \<and>
                 mask_count (mark res) = 6
            else map fst (placements res) = [''CAT''] \<and> failed res = [''DOG''] \<and>
                 mask_count (mark res) = 3"
    by (elim exE conjE)
  have e: "res = apart_result" using r run_apart by simp
  have e1: "s1 = cat_state" using one cat_first_trial_c2 by simp
  have ex: "\<exists>a < 2000. trial_succeeds rnd_c2 10 (dirs False) ''DOG'' (Suc 0) cat_state a"
    using dog_second_trial by (intro exI[of _ 1]) simp
  have placed: "map fst (placements apart_result) = [''CAT'', ''DOG''] \<and> failed apart_result = [] \<and>
                 mask_count (mark apart_result) = 6"
    using out[unfolded e e1] ex by (simp only: if_True)
  have c: "\<exists>ch \<in> set alphabet. cell_read (grid apart_result) 9 9 = Some (Some ch)"
    using all[unfolded e, rule_format, of 9 9] by simp
  from cat_dog_scenario[OF draws_zero]
  obtain res0 s0 where
    r0: "generateWordsearch rnd_zero [''CAT'', ''DOG''] 10 False = Some res0"
    and one0: "tryPlace rnd_zero 10 (dirs False) ''CAT'' 0 (Suc 0) (init_state 10) = Some (s0, True)"
    and out0: "if \<exists>a < 2000. trial_succeeds rnd_zero 10 (dirs False) ''DOG'' (Suc 0) s0 a
            then map fst (placements res0) = [''CAT'', ''DOG''] \<and> failed res0 = [] \<and>
                 mask_count (mark res0) = 6
            else map fst (placements res0) = [''CAT''] \<and> failed res0 = [''DOG''] \<and>
                 mask_count (mark res0) = 3"
    by (elim exE conjE)
  have e0: "s0 = cat_state" using one0 cat_first_trial by simp
  have f0: "failed res0 = [''DOG'']" using r0 zero_run_failed by simp
  have none: "\<not> (\<exists>a < 2000. trial_succeeds rnd_zero 10 (dirs False) ''DOG'' (Suc 0) cat_state a)"
  proof
    assume "\<exists>a < 2000. trial_succeeds rnd_zero 10 (dirs False) ''DOG'' (Suc 0) cat_state a"
    then have "failed res0 = []" using out0[unfolded e0] by (simp only: if_True)
    then show False using f0 by simp
  qed
  then have last: "\<not> trial_succeeds rnd_zero 10 (dirs False) ''DOG'' (Suc 0) cat_state 1999"
    by auto
  show ?thesis
    using draws_c2 run_apart cat_first_trial_c2 dog_second_trial c
      placed[THEN conjunct1] placed[THEN conjunct2, THEN conjunct1]
      placed[THEN conjunct2, THEN conjunct2]
      draws_zero cat_first_trial zero_run_failed last
    by (intro conjI)
qed

subsection \<open>C9: every placement spells its word\<close>

text \<open>
  Claim C9. Every entry \<open>p\<close> of \<open>placements\<close> spells its word in the returned grid: its
  coordinate list has as many cells as the word has letters, it is a straight line from a
  start cell along one direction of the active set, and the returned grid holds the
  \<open>i\<close>-th letter of the word at the \<open>i\<close>-th cell. The backfill never changes a cell that
  holds a letter.
\<close>

theorem placements_spell_words:
  assumes "draws rnd"
  shows "(\<exists>res. generateWordsearch rnd words sz allowDiagonals = Some res \<and>
            (\<forall>p \<in> set (placements res).
               length (snd p) = length (fst p) \<and>
               (\<exists>x y dx dy. (dx, dy) \<in> set (dirs allowDiagonals) \<and>
                  snd p = line_cells x y dx dy (length (fst p))) \<and>
               (\<forall>i < length (fst p). rd (grid res) (snd p ! i) = Some (Some (fst p ! i))))) \<and>
         (\<forall>g k cs g' k' c ch. fillBlanks rnd g k cs = Some (g', k') \<and> rd g c = Some (Some ch) \<longrightarrow>
            rd g' c = Some (Some ch))"
proof -
  from generate_master[of rnd words sz allowDiagonals] assms
  obtain res s where res: "generateWordsearch rnd words sz allowDiagonals = Some res"
    and inv: "gen_inv sz allowDiagonals s" and pl: "placements res = placements s"
    and keep: "\<forall>c ch. rd (grid s) c = Some (Some ch) \<longrightarrow> rd (grid res) c = Some (Some ch)"
    unfolding draws_def by blast
  have "length (snd p) = length (fst p) \<and>
        (\<exists>x y dx dy. (dx, dy) \<in> set (dirs allowDiagonals) \<and>
           snd p = line_cells x y dx dy (length (fst p))) \<and>
        (\<forall>i < length (fst p). rd (grid res) (snd p ! i) = Some (Some (fst p ! i)))"
    if "p \<in> set (placements res)" for p
  proof -
    have sp: "spells (grid s) allowDiagonals p" using inv that pl by (simp add: gen_inv_def)
    then obtain x y dx dy where L: "(dx, dy) \<in> set (dirs allowDiagonals)"
        "snd p = line_cells x y dx dy (length (fst p))"
      unfolding spells_def by blast
    then have "length (snd p) = length (fst p)" by (simp add: line_cells_def)
    moreover have "\<forall>i < length (fst p). rd (grid res) (snd p ! i) = Some (Some (fst p ! i))"
      using sp keep unfolding spells_def by blast
    ultimately show ?thesis using L by blast
  qed
  then show ?thesis using res fillBlanks_keep by blast
qed

theorem placements_spell_words_witness:
  "draws rnd_c2 \<and>
   generateWordsearch rnd_c2 [''CA'', ''CATS'', ''TS''] 4 False = Some overlay_result \<and>
   (''TS'', [(2, 0), (3, 0)]) \<in> set (placements overlay_result) \<and>
   length [(2, 0), (3 :: int, 0 :: int)] = length ''TS'' \<and>
   (\<exists>x y dx dy. (dx, dy) \<in> set (dirs False) \<and>
      [(2, 0), (3, 0)] = line_cells x y dx dy (length ''TS'')) \<and>
   rd (grid overlay_result) ([(2, 0), (3, 0)] ! 1) = Some (Some (''TS'' ! 1)) \<and>
   draws rnd_zero \<and>
   fillBlanks rnd_zero (grid cat_state) 3 (scan_order 10) = Some (cat_filled, 100) \<and>
   rd (grid cat_state) (0, 0) = Some (Some CHR ''C'') \<and>
   rd cat_filled (0, 0) = Some (Some CHR ''C'')"
proof -
  from placements_spell_words[OF draws_c2, of "[''CA'', ''CATS'', ''TS'']" 4 False, THEN conjunct1]
  obtain res where r: "generateWordsearch rnd_c2 [''CA'', ''CATS'', ''TS''] 4 False = Some res \<and>
            (\<forall>p \<in> set (placements res).
               length (snd p) = length (fst p) \<and>
               (\<exists>x y dx dy. (dx, dy) \<in> set (dirs False) \<and>
                  snd p = line_cells x y dx dy (length (fst p))) \<and>
               (\<forall>i < length (fst p). rd (grid res) (snd p ! i) = Some (Some (fst p ! i))))" ..
  have e: "res = overlay_result" using r[THEN conjunct1] run_overlay by simp
  have A: "\<forall>p \<in> set (placements overlay_result).
               length (snd p) = length (fst p) \<and>
               (\<exists>x y dx dy. (dx, dy) \<in> set (dirs False) \<and>
                  snd p = line_cells x y dx dy (length (fst p))) \<and>
               (\<forall>i < length (fst p). rd (grid overlay_result) (snd p ! i) = Some (Some (fst p ! i)))"
    using r[unfolded e] by (rule conjunct2)
  have m: "(''TS'', [(2, 0), (3, 0)]) \<in> set (placements overlay_result)"
    by (simp add: overlay_result_def)
  from bspec[OF A m]
  have a: "length [(2, 0), (3 :: int, 0 :: int)] = length ''TS''"
    and b: "\<exists>x y dx dy. (dx, dy) \<in> set (dirs False) \<and>
      [(2, 0), (3, 0)] = line_cells x y dx dy (length ''TS'')"
    and c: "\<forall>i < length ''TS''. rd (grid overlay_result) ([(2, 0), (3, 0)] ! i) = Some (Some (''TS'' ! i))"
    by simp_all
  have c1: "rd (grid overlay_result) ([(2, 0), (3, 0)] ! 1) = Some (Some (''TS'' ! 1))"
    using c[rule_format, of 1] by simp
  note T = placements_spell_words[OF draws_zero, of "[''CAT'', ''DOG'']" 10 False]
  have k: "rd cat_filled (0, 0) = Some (Some CHR ''C'')"
    using T[THEN conjunct2, rule_format, of "grid cat_state" 3 "scan_order 10" cat_filled 100
        "(0, 0)" "CHR ''C''"] cat_fill cat_state_corner by blast
  show ?thesis
    using draws_c2 run_overlay m a b c1 draws_zero cat_fill cat_state_corner k by (intro conjI)
qed

subsection \<open>C10: the caller's array and a failed word\<close>

text \<open>
  Claim C10. A call never changes its \<^verbatim>\<open>words\<close> argument: the sort runs on a fresh copy,
  so after the call every array the heap held before, the caller's word array among them,
  is as it was. And a word that fails all 2000 trials leaves \<open>grid\<close>, \<open>mark\<close>, \<open>owner\<close> (and
  \<open>placements\<close>, \<open>failed\<close>) as they were before its trials.
\<close>

theorem words_argument_unchanged:
  assumes "draws rnd" and "words < length h"
  shows "(\<exists>h' res. generateWordsearch_call rnd h words sz allowDiagonals = Some (h', res) \<and>
            take (length h) h' = h \<and> h' ! words = h ! words) \<and>
         (\<forall>s word wi s'.
            tryPlace rnd (int sz) (dirs allowDiagonals) word wi attempts s = Some (s', False) \<longrightarrow>
            grid s' = grid s \<and> mark s' = mark s \<and> owner s' = owner s \<and>
            placements s' = placements s \<and> failed s' = failed s)"
proof -
  let ?srt = "js_sort by_length_desc (h ! words)"
  from placeSorted_master[of rnd ?srt sz allowDiagonals] assms(1)
  obtain res where "placeSorted rnd ?srt sz allowDiagonals = Some res"
    unfolding draws_def by blast
  then have "generateWordsearch_call rnd h words sz allowDiagonals = Some (h @ [?srt], res)"
    using call_unfold[OF assms(2)] by simp
  moreover have "take (length h) (h @ [?srt]) = h \<and> (h @ [?srt]) ! words = h ! words"
    using assms(2) by (simp add: nth_append)
  ultimately have A: "\<exists>h' res. generateWordsearch_call rnd h words sz allowDiagonals = Some (h', res) \<and>
            take (length h) h' = h \<and> h' ! words = h ! words" by blast
  have B: "grid s' = grid s \<and> mark s' = mark s \<and> owner s' = owner s \<and>
           placements s' = placements s \<and> failed s' = failed s"
    if "tryPlace rnd (int sz) (dirs allowDiagonals) word wi attempts s = Some (s', False)"
    for s word wi s'
    using tryPlace_cases[OF that] by simp
  show ?thesis using A B by blast
qed

theorem words_argument_unchanged_witness:
  "draws rnd_c2 \<and> 0 < length [[''CA'', ''CATS'', ''TS'']] \<and>
   generateWordsearch_call rnd_c2 [[''CA'', ''CATS'', ''TS'']] 0 4 False =
     Some ([[''CA'', ''CATS'', ''TS''], [''CATS'', ''CA'', ''TS'']], overlay_result) \<and>
   take (length [[''CA'', ''CATS'', ''TS'']]) [[''CA'', ''CATS'', ''TS''], [''CATS'', ''CA'', ''TS'']] =
     [[''CA'', ''CATS'', ''TS'']] \<and>
   [[''CA'', ''CATS'', ''TS''], [''CATS'', ''CA'', ''TS'']] ! 0 = [[''CA'', ''CATS'', ''TS'']] ! 0 \<and>
   draws rnd_zero \<and>
   tryPlace rnd_zero 10 (dirs False) ''DOG'' (Suc 0) attempts cat_state =
     Some (cat_state\<lparr>calls := calls cat_state + 3 * attempts\<rparr>, False) \<and>
   grid (cat_state\<lparr>calls := calls cat_state + 3 * attempts\<rparr>) = grid cat_state \<and>
   mark (cat_state\<lparr>calls := calls cat_state + 3 * attempts\<rparr>) = mark cat_state \<and>
   owner (cat_state\<lparr>calls := calls cat_state + 3 * attempts\<rparr>) = owner cat_state \<and>
   placements (cat_state\<lparr>calls := calls cat_state + 3 * attempts\<rparr>) = placements cat_state \<and>
   failed (cat_state\<lparr>calls := calls cat_state + 3 * attempts\<rparr>) = failed cat_state"
proof -
  have a: "0 < length [[''CA'', ''CATS'', ''TS'']]" by simp
  from words_argument_unchanged[OF draws_c2 a, of 4 False, THEN conjunct1]
  obtain h' res where
    r: "generateWordsearch_call rnd_c2 [[''CA'', ''CATS'', ''TS'']] 0 4 False = Some (h', res)"
    and k: "take (length [[''CA'', ''CATS'', ''TS'']]) h' = [[''CA'', ''CATS'', ''TS'']]"
      "h' ! 0 = [[''CA'', ''CATS'', ''TS'']] ! 0"
    by (elim exE conjE)
  have e: "h' = [[''CA'', ''CATS'', ''TS''], [''CATS'', ''CA'', ''TS'']]"
    using r call_overlay by simp
  have b: "0 < length [[''CAT'', ''DOG'']]" by simp
  note T = words_argument_unchanged[OF draws_zero b, of 10 False]
  have t: "tryPlace rnd_zero (int 10) (dirs False) ''DOG'' (Suc 0) attempts cat_state =
     Some (cat_state\<lparr>calls := calls cat_state + 3 * attempts\<rparr>, False)"
    using dog_all_trials_fail by simp
  note B = T[THEN conjunct2, rule_format, OF t]
  show ?thesis
    using draws_c2 a call_overlay k[unfolded e] draws_zero dog_all_trials_fail
      B[THEN conjunct1] B[THEN conjunct2, THEN conjunct1]
      B[THEN conjunct2, THEN conjunct2, THEN conjunct1]
      B[THEN conjunct2, THEN conjunct2, THEN conjunct2, THEN conjunct1]
      B[THEN conjunct2, THEN conjunct2, THEN conjunct2, THEN conjunct2]
    by (intro conjI)
qed

end
